theory Spec2Isabelle
  imports Complex_Main
begin

section \<open>Floating-point values\<close>

text \<open>
  The solver and the ray tracer compute on float64 arrays. A float64 is modelled as a
  real number or one of the three special values: the two infinities and NaN. The
  special values follow IEEE 754 (an undefined operation gives NaN, every comparison
  with NaN is false); on finite values the arithmetic is exact, so rounding and
  overflow to infinity are not part of the model.
\<close>

datatype f64 = Fin real | PInf | NInf | NaN

fun fless :: "f64 \<Rightarrow> f64 \<Rightarrow> bool" where
  "fless (Fin a) (Fin b) = (a < b)"
| "fless (Fin a) PInf = True"
| "fless NInf (Fin b) = True"
| "fless NInf PInf = True"
| "fless _ _ = False"

fun fle :: "f64 \<Rightarrow> f64 \<Rightarrow> bool" where
  "fle (Fin a) (Fin b) = (a \<le> b)"
| "fle (Fin a) PInf = True"
| "fle NInf (Fin b) = True"
| "fle NInf PInf = True"
| "fle PInf PInf = True"
| "fle NInf NInf = True"
| "fle _ _ = False"

definition fge :: "f64 \<Rightarrow> f64 \<Rightarrow> bool" where
  "fge a b = fle b a"

fun feq :: "f64 \<Rightarrow> f64 \<Rightarrow> bool" where
  "feq (Fin a) (Fin b) = (a = b)"
| "feq PInf PInf = True"
| "feq NInf NInf = True"
| "feq _ _ = False"

fun fneg :: "f64 \<Rightarrow> f64" where
  "fneg (Fin a) = Fin (- a)"
| "fneg PInf = NInf"
| "fneg NInf = PInf"
| "fneg NaN = NaN"

fun fadd :: "f64 \<Rightarrow> f64 \<Rightarrow> f64" where
  "fadd NaN _ = NaN"
| "fadd _ NaN = NaN"
| "fadd (Fin a) (Fin b) = Fin (a + b)"
| "fadd PInf NInf = NaN"
| "fadd NInf PInf = NaN"
| "fadd PInf _ = PInf"
| "fadd _ PInf = PInf"
| "fadd NInf _ = NInf"
| "fadd _ NInf = NInf"

definition fsub :: "f64 \<Rightarrow> f64 \<Rightarrow> f64" where
  "fsub a b = fadd a (fneg b)"

text \<open>The sign of an infinite product or quotient: \<open>inf_of True\<close> is the positive one.\<close>

definition inf_of :: "bool \<Rightarrow> f64" where
  "inf_of pos = (if pos then PInf else NInf)"

fun fmul :: "f64 \<Rightarrow> f64 \<Rightarrow> f64" where
  "fmul NaN _ = NaN"
| "fmul _ NaN = NaN"
| "fmul (Fin a) (Fin b) = Fin (a * b)"
| "fmul (Fin a) PInf = (if a = 0 then NaN else inf_of (0 < a))"
| "fmul (Fin a) NInf = (if a = 0 then NaN else inf_of (a < 0))"
| "fmul PInf (Fin b) = (if b = 0 then NaN else inf_of (0 < b))"
| "fmul NInf (Fin b) = (if b = 0 then NaN else inf_of (b < 0))"
| "fmul PInf PInf = PInf"
| "fmul PInf NInf = NInf"
| "fmul NInf PInf = NInf"
| "fmul NInf NInf = PInf"

text \<open>
  Division by a zero float is an exception in the compiled code (handled where the ray
  tracer divides); \<open>fdiv\<close> gives the IEEE value there, for a zero of positive sign.
\<close>

fun fdiv :: "f64 \<Rightarrow> f64 \<Rightarrow> f64" where
  "fdiv NaN _ = NaN"
| "fdiv _ NaN = NaN"
| "fdiv (Fin a) (Fin b) =
     (if b = 0 then (if a = 0 then NaN else inf_of (0 < a)) else Fin (a / b))"
| "fdiv (Fin a) PInf = Fin 0"
| "fdiv (Fin a) NInf = Fin 0"
| "fdiv PInf (Fin b) = inf_of (0 \<le> b)"
| "fdiv NInf (Fin b) = inf_of (b < 0)"
| "fdiv _ _ = NaN"

fun fsqrt :: "f64 \<Rightarrow> f64" where
  "fsqrt (Fin a) = (if 0 \<le> a then Fin (sqrt a) else NaN)"
| "fsqrt PInf = PInf"
| "fsqrt NInf = NaN"
| "fsqrt NaN = NaN"

text \<open>\<open>v**2\<close> on a float.\<close>

definition fsquare :: "f64 \<Rightarrow> f64" where
  "fsquare a = fmul a a"

section \<open>The solver's stencil\<close>

text \<open>
  Lines 15 to 23 of \<open>_solve_quadratic\<close>: from the two axis minima, the slowness of the
  cell and the grid spacing to the candidate arrival time.
\<close>

definition order_pair :: "f64 \<Rightarrow> f64 \<Rightarrow> f64 \<times> f64" where
  "order_pair t_horiz t_vert =
     (if fless t_horiz t_vert then (t_horiz, t_vert) else (t_vert, t_horiz))"

definition two_axis :: "f64 \<Rightarrow> f64 \<Rightarrow> f64 \<Rightarrow> f64 \<Rightarrow> f64 option" where
  "two_axis t1 t2 slow dx =
     (let a = Fin 2;
          b = fmul (Fin (- 2)) (fadd t1 t2);
          c = fsub (fadd (fsquare t1) (fsquare t2)) (fsquare (fmul slow dx));
          disc = fsub (fmul b b) (fmul (fmul (Fin 4) a) c)
      in if fge disc (Fin 0)
         then (let t_new = fdiv (fadd (fneg b) (fsqrt disc)) (fmul (Fin 2) a)
               in if fge t_new t2 then Some t_new else None)
         else None)"

definition stencil :: "f64 \<Rightarrow> f64 \<Rightarrow> f64 \<Rightarrow> f64 \<Rightarrow> f64" where
  "stencil t_horiz t_vert slow dx =
     (case order_pair t_horiz t_vert of (t1, t2) \<Rightarrow>
        if feq t1 PInf then PInf
        else (case (if fless t2 PInf then two_axis t1 t2 slow dx else None) of
                Some t_new \<Rightarrow> t_new
              | None \<Rightarrow> fadd t1 (fmul slow dx)))"

text \<open>
  The quadratic of the specification, \<open>2 t\<^sup>2 - 2 (t1 + t2) t + (t1\<^sup>2 + t2\<^sup>2 - h\<^sup>2)\<close> with
  \<open>h\<close> the product of slowness and spacing, its discriminant and its larger root.
\<close>

definition quad :: "real \<Rightarrow> real \<Rightarrow> real \<Rightarrow> real \<Rightarrow> real" where
  "quad t1 t2 h t = 2 * t\<^sup>2 - 2 * (t1 + t2) * t + (t1\<^sup>2 + t2\<^sup>2 - h\<^sup>2)"

definition quad_disc :: "real \<Rightarrow> real \<Rightarrow> real \<Rightarrow> real" where
  "quad_disc t1 t2 h = (2 * (t1 + t2))\<^sup>2 - 4 * 2 * (t1\<^sup>2 + t2\<^sup>2 - h\<^sup>2)"

definition is_larger_root :: "real \<Rightarrow> real \<Rightarrow> real \<Rightarrow> real \<Rightarrow> bool" where
  "is_larger_root t1 t2 h r \<longleftrightarrow>
     quad t1 t2 h r = 0 \<and> (\<forall>t. quad t1 t2 h t = 0 \<longrightarrow> t \<le> r)"


section \<open>Faults and arrays\<close>

text \<open>
  Both modules are compiled by numba (\<open>@njit\<close>), and the model follows the compiled code.
  A computation that leaves its normal course returns \<open>Inl\<close> of a fault, and \<open>bindE\<close> passes
  the first fault on. \<open>ZeroDivisionError\<close> is the one exception that the compiled code can
  raise, at a float division. The other two faults are no exceptions: nothing is raised
  there, and what the process does next is not fixed by the source. \<open>OutOfBuffer\<close> is a
  write to memory that is not the array's, after which the process may go on, with that
  memory changed, or die; \<open>UndefinedCast\<close> is the conversion to an integer of a value
  that is not finite. A computation of the model ends there, and no statement below says
  what the program does after one of the two.
\<close>

datatype fault = ZeroDivisionError | OutOfBuffer | UndefinedCast

definition bindE :: "'e + 'a \<Rightarrow> ('a \<Rightarrow> 'e + 'b) \<Rightarrow> 'e + 'b" where
  "bindE m f = (case m of Inl e \<Rightarrow> Inl e | Inr v \<Rightarrow> f v)"

text \<open>
  A two-dimensional array is a block of memory that holds its rows one after the other,
  as \<open>np.full\<close> and \<open>np.zeros\<close> lay it out. \<open>elems\<close> is the element at each position of the
  shape, and \<open>beyond\<close> what a read finds at an offset outside the block. The compiled code
  does not check an index against the shape. It adds the length of the axis to a negative
  index, once, and takes the element at the offset \<open>y * ncols + x\<close> from the start of the
  block. For an index inside the shape that is the element at the position \<open>(y, x)\<close>. For
  any other index the offset either lies in the block still, and the access is to the
  element stored there (\<open>cell_of\<close>), or it lies outside the block: a read then gives
  whatever the memory holds, and a write, which would change memory that is not the
  array's, is the fault \<open>OutOfBuffer\<close>.
\<close>

record 'a array2 =
  nrows :: nat
  ncols :: nat
  elems :: "nat \<Rightarrow> nat \<Rightarrow> 'a"
  beyond :: "int \<Rightarrow> 'a"

definition wraparound :: "nat \<Rightarrow> int \<Rightarrow> int" where
  "wraparound n i = (if i < 0 then i + int n else i)"

definition offset2 :: "'a array2 \<Rightarrow> int \<Rightarrow> int \<Rightarrow> int" where
  "offset2 a y x = wraparound (nrows a) y * int (ncols a) + wraparound (ncols a) x"

definition cell_of :: "'a array2 \<Rightarrow> int \<Rightarrow> int \<Rightarrow> (nat \<times> nat) option" where
  "cell_of a y x =
     (let k = offset2 a y x in
      if 0 \<le> k \<and> k < int (nrows a * ncols a)
      then Some (nat k div ncols a, nat k mod ncols a)
      else None)"

definition get2 :: "'a array2 \<Rightarrow> int \<Rightarrow> int \<Rightarrow> fault + 'a" where
  "get2 a y x =
     (case cell_of a y x of
        Some (r, c) \<Rightarrow> Inr (elems a r c)
      | None \<Rightarrow> Inr (beyond a (offset2 a y x)))"

definition set2 :: "'a array2 \<Rightarrow> int \<Rightarrow> int \<Rightarrow> 'a \<Rightarrow> fault + 'a array2" where
  "set2 a y x v =
     (case cell_of a y x of
        Some (r, c) \<Rightarrow> Inr (a\<lparr>elems := (elems a)(r := (elems a r)(c := v))\<rparr>)
      | None \<Rightarrow> Inl OutOfBuffer)"

text \<open>A new array holds one value at every position; what lies beyond it is not specified.\<close>

definition unspecified :: "int \<Rightarrow> 'a" where
  "unspecified = (\<lambda>k. undefined)"

definition full2 :: "nat \<Rightarrow> nat \<Rightarrow> 'a \<Rightarrow> 'a array2" where
  "full2 ny nx v = \<lparr>nrows = ny, ncols = nx, elems = (\<lambda>r c. v), beyond = unspecified\<rparr>"

text \<open>
  One-dimensional arrays are lists, and the program indexes them from 0 upwards only. An
  index that is not below the length leaves the buffer, and the model does not follow it.
  The solver uses no such index on the band (\<open>pop_min_returns\<close>, \<open>push_returns\<close>) unless the
  field has no cells, where the write of line 31 has left the buffer before; the tracer
  uses none on a path with room for one point (\<open>trace_step_returns\<close>), and \<open>trace_ray\<close>
  makes room for 30000.
\<close>

definition get1 :: "'a list \<Rightarrow> nat \<Rightarrow> fault + 'a" where
  "get1 xs i = (if i < length xs then Inr (xs ! i) else Inl OutOfBuffer)"

definition set1 :: "'a list \<Rightarrow> nat \<Rightarrow> 'a \<Rightarrow> fault + 'a list" where
  "set1 xs i v = (if i < length xs then Inr (xs[i := v]) else Inl OutOfBuffer)"

section \<open>The solver\<close>

subsection \<open>\<open>_solve_quadratic\<close>\<close>

text \<open>
  Lines 11 to 14: \<open>if guard and T[..] < t: t = T[..]\<close>. The array is read only when the
  guard holds.
\<close>

definition take_min :: "bool \<Rightarrow> fault + f64 \<Rightarrow> f64 \<Rightarrow> fault + f64" where
  "take_min guard rd cur =
     (if guard then bindE rd (\<lambda>v. Inr (if fless v cur then v else cur)) else Inr cur)"

definition t_horiz_of :: "f64 array2 \<Rightarrow> int \<Rightarrow> int \<Rightarrow> int \<Rightarrow> fault + f64" where
  "t_horiz_of T y x nx =
     bindE (take_min (0 < x) (get2 T y (x - 1)) PInf) (\<lambda>t.
     take_min (x < nx - 1) (get2 T y (x + 1)) t)"

definition t_vert_of :: "f64 array2 \<Rightarrow> int \<Rightarrow> int \<Rightarrow> int \<Rightarrow> fault + f64" where
  "t_vert_of T y x ny =
     bindE (take_min (0 < y) (get2 T (y - 1) x) PInf) (\<lambda>t.
     take_min (y < ny - 1) (get2 T (y + 1) x) t)"

definition solve_quadratic ::
  "f64 array2 \<Rightarrow> f64 array2 \<Rightarrow> int \<Rightarrow> int \<Rightarrow> f64 \<Rightarrow> int \<Rightarrow> int \<Rightarrow> fault + f64" where
  "solve_quadratic T slowness y x dx ny nx =
     bindE (get2 slowness y x) (\<lambda>slow.
     bindE (t_horiz_of T y x nx) (\<lambda>t_horiz.
     bindE (t_vert_of T y x ny) (\<lambda>t_vert.
     Inr (stencil t_horiz t_vert slow dx))))"

subsection \<open>\<open>_fmm_core\<close>\<close>

text \<open>
  The state of the loop: the arrival times, the frozen markers, and the narrow band, held
  in three parallel arrays of which the first \<open>hs\<close> entries are in use.
\<close>

record fmm_state =
  st_T :: "f64 array2"
  frozen :: "bool array2"
  heap_t :: "f64 list"
  heap_y :: "int list"
  heap_x :: "int list"
  hs :: nat

text \<open>Lines 28 to 36.\<close>

definition fmm_init :: "f64 array2 \<Rightarrow> int \<Rightarrow> int \<Rightarrow> fault + fmm_state" where
  "fmm_init slowness sy sx =
     (let ny = nrows slowness; nx = ncols slowness in
      bindE (set2 (full2 ny nx PInf) sy sx (Fin 0)) (\<lambda>T0.
      bindE (set1 (replicate (ny * nx) PInf) 0 (Fin 0)) (\<lambda>ht.
      bindE (set1 (replicate (ny * nx) 0) 0 sy) (\<lambda>hy.
      bindE (set1 (replicate (ny * nx) 0) 0 sx) (\<lambda>hx.
      Inr \<lparr>st_T = T0, frozen = full2 ny nx False,
           heap_t = ht, heap_y = hy, heap_x = hx, hs = 1\<rparr>)))))"

text \<open>Lines 40 to 42: the index and the time of the first smallest entry.\<close>

fun scan_min :: "f64 list \<Rightarrow> nat list \<Rightarrow> nat \<times> f64 \<Rightarrow> fault + nat \<times> f64" where
  "scan_min ht [] (mi, mt) = Inr (mi, mt)"
| "scan_min ht (i # rest) (mi, mt) =
     bindE (get1 ht i) (\<lambda>v. scan_min ht rest (if fless v mt then (i, v) else (mi, mt)))"

text \<open>Line 46: the last entry in use moves into the place of the one taken out.\<close>

definition move_entry :: "fmm_state \<Rightarrow> nat \<Rightarrow> nat \<Rightarrow> fault + fmm_state" where
  "move_entry st src dst =
     bindE (get1 (heap_t st) src) (\<lambda>t.
     bindE (get1 (heap_y st) src) (\<lambda>y.
     bindE (get1 (heap_x st) src) (\<lambda>x.
     bindE (set1 (heap_t st) dst t) (\<lambda>ht.
     bindE (set1 (heap_y st) dst y) (\<lambda>hy.
     bindE (set1 (heap_x st) dst x) (\<lambda>hx.
     Inr (st\<lparr>heap_t := ht, heap_y := hy, heap_x := hx\<rparr>)))))))"

text \<open>Lines 40 to 46: the popped time and cell, and the state without that entry.\<close>

definition pop_min :: "fmm_state \<Rightarrow> fault + (f64 \<times> int \<times> int \<times> fmm_state)" where
  "pop_min st =
     bindE (get1 (heap_t st) 0) (\<lambda>t0.
     bindE (scan_min (heap_t st) [1..<hs st] (0, t0)) (\<lambda>(mi, mt).
     bindE (get1 (heap_y st) mi) (\<lambda>y.
     bindE (get1 (heap_x st) mi) (\<lambda>x.
     bindE (if mi < hs st - 1 then move_entry st (hs st - 1) mi else Inr st) (\<lambda>st1.
     Inr (mt, y, x, st1\<lparr>hs := hs st - 1\<rparr>))))))"

text \<open>Lines 55 to 57: the push, which a full band drops.\<close>

definition push :: "nat \<Rightarrow> f64 \<Rightarrow> int \<Rightarrow> int \<Rightarrow> fmm_state \<Rightarrow> fault + fmm_state" where
  "push cap tn ny2 nx2 st =
     (if hs st < cap then
        bindE (set1 (heap_t st) (hs st) tn) (\<lambda>ht.
        bindE (set1 (heap_y st) (hs st) ny2) (\<lambda>hy.
        bindE (set1 (heap_x st) (hs st) nx2) (\<lambda>hx.
        Inr (st\<lparr>heap_t := ht, heap_y := hy, heap_x := hx, hs := hs st + 1\<rparr>))))
      else Inr st)"

text \<open>Lines 51 to 57, for one neighbour \<open>(ny2, nx2)\<close>.\<close>

definition relax :: "f64 array2 \<Rightarrow> f64 \<Rightarrow> int \<Rightarrow> int \<Rightarrow> fmm_state \<Rightarrow> fault + fmm_state" where
  "relax slowness dx ny2 nx2 st =
     (let ny = nrows slowness; nx = ncols slowness in
      if 0 \<le> ny2 \<and> ny2 < int ny \<and> 0 \<le> nx2 \<and> nx2 < int nx then
        bindE (get2 (frozen st) ny2 nx2) (\<lambda>fz.
        if fz then Inr st
        else
          bindE (solve_quadratic (st_T st) slowness ny2 nx2 dx (int ny) (int nx)) (\<lambda>tn.
          bindE (get2 (st_T st) ny2 nx2) (\<lambda>cur.
          if fless tn cur then
            bindE (set2 (st_T st) ny2 nx2 tn) (\<lambda>T'. push (ny * nx) tn ny2 nx2 (st\<lparr>st_T := T'\<rparr>))
          else Inr st)))
      else Inr st)"

text \<open>Lines 37, 38 and 49: the four neighbours, in the order of \<open>dy_arr\<close> and \<open>dx_arr\<close>.\<close>

definition neighbours :: "int \<Rightarrow> int \<Rightarrow> (int \<times> int) list" where
  "neighbours y x = [(y + (- 1), x + 0), (y + 1, x + 0), (y + 0, x + (- 1)), (y + 0, x + 1)]"

fun relax_all ::
  "f64 array2 \<Rightarrow> f64 \<Rightarrow> (int \<times> int) list \<Rightarrow> fmm_state \<Rightarrow> fault + fmm_state" where
  "relax_all slowness dx [] st = Inr st"
| "relax_all slowness dx ((ny2, nx2) # rest) st =
     bindE (relax slowness dx ny2 nx2 st) (relax_all slowness dx rest)"

text \<open>Lines 40 to 57: one iteration of the loop.\<close>

definition fmm_iter :: "f64 array2 \<Rightarrow> f64 \<Rightarrow> fmm_state \<Rightarrow> fault + fmm_state" where
  "fmm_iter slowness dx st =
     bindE (pop_min st) (\<lambda>(mt, y, x, st1).
     bindE (get2 (frozen st1) y x) (\<lambda>fz.
     if fz then Inr st1
     else
       bindE (set2 (frozen st1) y x True) (\<lambda>fr.
       relax_all slowness dx (neighbours y x) (st1\<lparr>frozen := fr\<rparr>))))"

text \<open>The cells of the grid that are not frozen; the loop's measure counts them.\<close>

definition unfrozen :: "bool array2 \<Rightarrow> (nat \<times> nat) set" where
  "unfrozen fr = {(r, c). r < nrows fr \<and> c < ncols fr \<and> \<not> elems fr r c}"


subsection \<open>Termination of the loop\<close>

text \<open>
  An iteration either discards a stale entry, and the band is one entry shorter, or
  freezes a cell that was not frozen. The loop therefore ends on every state.
\<close>

lemma bindE_Inr [simp]: "bindE (Inr v) f = f v"
  by (simp add: bindE_def)

lemma bindE_Inl [simp]: "bindE (Inl e) f = Inl e"
  by (simp add: bindE_def)

lemma bindE_eq_Inr: "bindE m f = Inr r \<longleftrightarrow> (\<exists>v. m = Inr v \<and> f v = Inr r)"
  by (cases m) simp_all

lemma get1_eq_Inr: "get1 xs i = Inr v \<longleftrightarrow> i < length xs \<and> v = xs ! i"
  by (auto simp: get1_def)

lemma set1_eq_Inr: "set1 xs i v = Inr ys \<longleftrightarrow> i < length xs \<and> ys = xs[i := v]"
  by (auto simp: set1_def)

lemma set2_eq_Inr:
  "set2 a y x v = Inr b \<longleftrightarrow>
     (\<exists>r c. cell_of a y x = Some (r, c) \<and> b = a\<lparr>elems := (elems a)(r := (elems a r)(c := v))\<rparr>)"
  by (auto simp: set2_def split: option.splits)

lemma get2_cell: "cell_of a y x = Some (r, c) \<Longrightarrow> get2 a y x = Inr (elems a r c)"
  by (simp add: get2_def)

lemma cell_of_less:
  assumes "cell_of a y x = Some (r, c)"
  shows "r < nrows a" and "c < ncols a"
proof -
  define k where "k = nat (offset2 a y x)"
  from assms have k: "k < nrows a * ncols a" and r: "r = k div ncols a" and c: "c = k mod ncols a"
    by (auto simp: cell_of_def Let_def k_def nat_less_iff split: if_splits)
  from k have pos: "0 < ncols a" by (cases "ncols a") simp_all
  from k show "r < nrows a" unfolding r by (simp add: less_mult_imp_div_less)
  from pos show "c < ncols a" unfolding c by simp
qed

lemma cell_of_shape:
  "nrows a = nrows b \<Longrightarrow> ncols a = ncols b \<Longrightarrow> cell_of a y x = cell_of b y x"
  by (simp add: cell_of_def offset2_def Let_def)

lemma move_entry_frame:
  "move_entry st src dst = Inr st' \<Longrightarrow> st_T st' = st_T st \<and> frozen st' = frozen st \<and> hs st' = hs st"
  by (auto simp: move_entry_def bindE_eq_Inr)

lemma pop_min_frame:
  "pop_min st = Inr (mt, y, x, st1) \<Longrightarrow> st_T st1 = st_T st \<and> frozen st1 = frozen st \<and> hs st1 = hs st - 1"
  by (auto simp: pop_min_def bindE_eq_Inr split: if_splits dest: move_entry_frame)

lemma push_frame:
  "push cap tn y x st = Inr st' \<Longrightarrow> st_T st' = st_T st \<and> frozen st' = frozen st"
  by (auto simp: push_def bindE_eq_Inr split: if_splits)

lemma relax_frozen:
  "relax slowness dx y x st = Inr st' \<Longrightarrow> frozen st' = frozen st"
  by (auto simp: relax_def Let_def bindE_eq_Inr split: if_splits dest!: push_frame)

lemma relax_all_frozen:
  "relax_all slowness dx ns st = Inr st' \<Longrightarrow> frozen st' = frozen st"
proof (induction ns arbitrary: st)
  case Nil
  then show ?case by simp
next
  case (Cons n ns)
  obtain y x where n: "n = (y, x)" by (cases n)
  from Cons.prems obtain st1 where "relax slowness dx y x st = Inr st1"
    and "relax_all slowness dx ns st1 = Inr st'"
    by (auto simp: n bindE_eq_Inr)
  then show ?case using Cons.IH relax_frozen by metis
qed

lemma finite_unfrozen: "finite (unfrozen fr)"
proof -
  have "unfrozen fr \<subseteq> {..<nrows fr} \<times> {..<ncols fr}" by (auto simp: unfrozen_def)
  then show ?thesis by (rule finite_subset) simp
qed

lemma freeze_shrinks:
  assumes "get2 fr y x = Inr False" and "set2 fr y x True = Inr fr'"
  shows "unfrozen fr' \<subset> unfrozen fr"
proof -
  from assms(2) obtain r c where rc: "cell_of fr y x = Some (r, c)"
    and fr': "fr' = fr\<lparr>elems := (elems fr)(r := (elems fr r)(c := True))\<rparr>"
    by (auto simp: set2_eq_Inr)
  from assms(1) have nf: "\<not> elems fr r c" by (simp add: get2_cell[OF rc])
  have "(r, c) \<in> unfrozen fr" using cell_of_less[OF rc] nf by (simp add: unfrozen_def)
  moreover have "(r, c) \<notin> unfrozen fr'" by (simp add: unfrozen_def fr')
  moreover have "unfrozen fr' \<subseteq> unfrozen fr" by (auto simp: unfrozen_def fr' split: if_splits)
  ultimately show ?thesis by blast
qed

lemma fmm_iter_decreases:
  assumes "fmm_iter slowness dx st = Inr st'"
  shows "(frozen st' = frozen st \<and> hs st' = hs st - 1) \<or> unfrozen (frozen st') \<subset> unfrozen (frozen st)"
proof -
  from assms obtain mt y x st1 fz where pop: "pop_min st = Inr (mt, y, x, st1)"
    and fz: "get2 (frozen st1) y x = Inr fz"
    and rest: "(if fz then Inr st1 else bindE (set2 (frozen st1) y x True)
                 (\<lambda>fr. relax_all slowness dx (neighbours y x) (st1\<lparr>frozen := fr\<rparr>))) = Inr st'"
    by (auto simp: fmm_iter_def bindE_eq_Inr)
  note fr = pop_min_frame[OF pop]
  show ?thesis
  proof (cases fz)
    case True
    with rest fr show ?thesis by simp
  next
    case False
    with rest obtain fr' where s: "set2 (frozen st1) y x True = Inr fr'"
      and r: "relax_all slowness dx (neighbours y x) (st1\<lparr>frozen := fr'\<rparr>) = Inr st'"
      by (auto simp: bindE_eq_Inr)
    from relax_all_frozen[OF r] have "frozen st' = fr'" by simp
    with freeze_shrinks[OF _ s] fz False fr show ?thesis by simp
  qed
qed

text \<open>Lines 39 to 58: the loop runs while the band is not empty.\<close>

function fmm_loop :: "f64 array2 \<Rightarrow> f64 \<Rightarrow> fmm_state \<Rightarrow> fault + fmm_state" where
  "fmm_loop slowness dx st =
     (if 0 < hs st then
        (case fmm_iter slowness dx st of
           Inl e \<Rightarrow> Inl e
         | Inr st' \<Rightarrow> fmm_loop slowness dx st')
      else Inr st)"
  by pat_completeness auto
termination
proof (relation "measures [\<lambda>(slowness, dx, st). card (unfrozen (frozen st)), \<lambda>(slowness, dx, st). hs st]")
  show "wf (measures [\<lambda>(slowness, dx, st). card (unfrozen (frozen st)), \<lambda>(slowness, dx, st). hs st])"
    by simp
next
  fix slowness :: "f64 array2" and dx st st'
  assume pos: "0 < hs st" and it: "fmm_iter slowness dx st = Inr st'"
  from fmm_iter_decreases[OF it]
  show "((slowness, dx, st'), (slowness, dx, st))
          \<in> measures [\<lambda>(slowness, dx, st). card (unfrozen (frozen st)), \<lambda>(slowness, dx, st). hs st]"
  proof
    assume "frozen st' = frozen st \<and> hs st' = hs st - 1"
    with pos show ?thesis by simp
  next
    assume "unfrozen (frozen st') \<subset> unfrozen (frozen st)"
    then have "card (unfrozen (frozen st')) < card (unfrozen (frozen st))"
      by (rule psubset_card_mono[OF finite_unfrozen])
    then show ?thesis by simp
  qed
qed

text \<open>The recursion equation of the loop is applied by hand, one iteration at a time.\<close>

declare fmm_loop.simps [simp del]

lemma fmm_loop_step:
  "0 < hs st \<Longrightarrow> fmm_iter slowness dx st = Inr st' \<Longrightarrow>
   fmm_loop slowness dx st = fmm_loop slowness dx st'"
  by (subst fmm_loop.simps) simp

lemma fmm_loop_error:
  "0 < hs st \<Longrightarrow> fmm_iter slowness dx st = Inl e \<Longrightarrow> fmm_loop slowness dx st = Inl e"
  by (subst fmm_loop.simps) simp

lemma fmm_loop_done: "hs st = 0 \<Longrightarrow> fmm_loop slowness dx st = Inr st"
  by (subst fmm_loop.simps) simp

text \<open>\<open>_fmm_core\<close> returns the arrival times; \<open>solve_eikonal\<close> passes the field and the
  source cell on (the conversions of its arguments to float64 and int are the identity
  on a float field and an integer cell).\<close>

definition fmm_core :: "f64 array2 \<Rightarrow> int \<Rightarrow> int \<Rightarrow> f64 \<Rightarrow> fault + f64 array2" where
  "fmm_core slowness sy sx dx =
     bindE (fmm_init slowness sy sx) (\<lambda>st0.
     bindE (fmm_loop slowness dx st0) (\<lambda>st. Inr (st_T st)))"

definition solve_eikonal :: "f64 array2 \<Rightarrow> int \<times> int \<Rightarrow> f64 \<Rightarrow> fault + f64 array2" where
  "solve_eikonal n_field source dx = fmm_core n_field (fst source) (snd source) dx"

section \<open>The ray tracer\<close>

text \<open>
  The built-in \<open>min\<close> and \<open>max\<close> of two arguments keep the first unless the second is
  strictly smaller (larger), so a NaN in second place is never chosen.
\<close>

definition py_min :: "f64 \<Rightarrow> f64 \<Rightarrow> f64" where
  "py_min a b = (if fless b a then b else a)"

definition py_max :: "f64 \<Rightarrow> f64 \<Rightarrow> f64" where
  "py_max a b = (if fless a b then b else a)"

text \<open>
  \<open>int(v)\<close> truncates towards zero. The compiled conversion raises nothing; its result for
  a value that is not finite is not defined, and the tracer converts clamped values only.
\<close>

fun py_int :: "f64 \<Rightarrow> fault + int" where
  "py_int (Fin a) = Inr (if 0 \<le> a then \<lfloor>a\<rfloor> else \<lceil>a\<rceil>)"
| "py_int _ = Inl UndefinedCast"

text \<open>Float division raises on a zero divisor.\<close>

definition py_div :: "f64 \<Rightarrow> f64 \<Rightarrow> fault + f64" where
  "py_div a b = (if b = Fin 0 then Inl ZeroDivisionError else Inr (fdiv a b))"

definition of_int64 :: "int \<Rightarrow> f64" where
  "of_int64 i = Fin (of_int i)"

subsection \<open>\<open>_gradient\<close>\<close>

definition gradient :: "f64 array2 \<Rightarrow> f64 \<Rightarrow> f64 \<Rightarrow> fault + f64 \<times> f64" where
  "gradient T y x =
     (let ny = int (nrows T); nx = int (ncols T);
          y = py_max (Fin (1 / 2)) (py_min (fsub (of_int64 ny) (Fin (3 / 2))) y);
          x = py_max (Fin (1 / 2)) (py_min (fsub (of_int64 nx) (Fin (3 / 2))) x)
      in bindE (py_int y) (\<lambda>iy.
         bindE (py_int x) (\<lambda>ix.
         let fy = fsub y (of_int64 iy); fx = fsub x (of_int64 ix);
             iy0 = max 0 (min (ny - 2) iy); ix0 = max 0 (min (nx - 2) ix)
         in bindE (get2 T iy0 ix0) (\<lambda>t00.
            bindE (get2 T iy0 (ix0 + 1)) (\<lambda>t01.
            bindE (get2 T (iy0 + 1) ix0) (\<lambda>t10.
            bindE (get2 T (iy0 + 1) (ix0 + 1)) (\<lambda>t11.
            let gx = fadd (fmul (fsub (Fin 1) fy) (fsub t01 t00)) (fmul fy (fsub t11 t10));
                gy = fadd (fmul (fsub (Fin 1) fx) (fsub t10 t00)) (fmul fx (fsub t11 t01))
            in Inr (gy, gx))))))))"

subsection \<open>\<open>_trace_core\<close>\<close>

text \<open>
  The state of the integration loop: the position, the two coordinate arrays of the
  path and the number of points written. An iteration either goes on or leaves the loop
  at one of its three \<open>break\<close>s; the fourth way out is the end of the range.
\<close>

record trace_state =
  pos_y :: f64
  pos_x :: f64
  path_y :: "f64 list"
  path_x :: "f64 list"
  path_n :: nat

datatype stop_cause = Stationary | LeftGrid | ReachedSource | MaxSteps

definition outside :: "f64 array2 \<Rightarrow> f64 \<Rightarrow> f64 \<Rightarrow> bool" where
  "outside T y x \<longleftrightarrow>
     fless y (Fin 0) \<or> fge y (of_int64 (int (nrows T))) \<or>
     fless x (Fin 0) \<or> fge x (of_int64 (int (ncols T)))"

definition near_source :: "f64 \<Rightarrow> f64 \<Rightarrow> f64 \<Rightarrow> f64 \<Rightarrow> f64 \<Rightarrow> bool" where
  "near_source y x sy sx step \<longleftrightarrow>
     fless (fsqrt (fadd (fsquare (fsub y sy)) (fsquare (fsub x sx)))) (fmul step (Fin 2))"

text \<open>Lines 30 to 38: the body of the loop.\<close>

definition trace_step ::
  "f64 array2 \<Rightarrow> f64 \<Rightarrow> f64 \<Rightarrow> f64 \<Rightarrow> trace_state \<Rightarrow> fault + (stop_cause option \<times> trace_state)" where
  "trace_step T sy sx step s =
     bindE (gradient T (pos_y s) (pos_x s)) (\<lambda>(gy, gx).
     let gn = fsqrt (fadd (fsquare gy) (fsquare gx)) in
     if fless gn (Fin (1 / 10 ^ 10)) then Inr (Some Stationary, s)
     else
       bindE (py_div (fmul step gy) gn) (\<lambda>dy.
       bindE (py_div (fmul step gx) gn) (\<lambda>dx.
       let y = fsub (pos_y s) dy; x = fsub (pos_x s) dx;
           s1 = s\<lparr>pos_y := y, pos_x := x\<rparr>
       in if outside T y x then Inr (Some LeftGrid, s1)
          else
            bindE (set1 (path_y s) (path_n s) y) (\<lambda>py'.
            bindE (set1 (path_x s) (path_n s) x) (\<lambda>px'.
            let s2 = s1\<lparr>path_y := py', path_x := px', path_n := path_n s + 1\<rparr>
            in Inr (if near_source y x sy sx step then Some ReachedSource else None, s2))))))"

text \<open>Line 29: \<open>for _ in range(1, maxs)\<close>, with \<open>i\<close> the loop variable.\<close>

function trace_loop ::
  "f64 array2 \<Rightarrow> f64 \<Rightarrow> f64 \<Rightarrow> f64 \<Rightarrow> nat \<Rightarrow> nat \<Rightarrow> trace_state \<Rightarrow> fault + (stop_cause \<times> trace_state)" where
  "trace_loop T sy sx step maxs i s =
     (if i < maxs then
        (case trace_step T sy sx step s of
           Inl e \<Rightarrow> Inl e
         | Inr (Some cause, s') \<Rightarrow> Inr (cause, s')
         | Inr (None, s') \<Rightarrow> trace_loop T sy sx step maxs (Suc i) s')
      else Inr (MaxSteps, s))"
  by pat_completeness auto
termination
  by (relation "measure (\<lambda>(T, sy, sx, step, maxs, i, s). maxs - i)") auto

text \<open>Lines 23 to 28 and 39: the arrays of the path, its first point, the loop, and the
  part of the arrays that was written.\<close>

definition trace_run ::
  "f64 array2 \<Rightarrow> f64 \<Rightarrow> f64 \<Rightarrow> f64 \<Rightarrow> f64 \<Rightarrow> f64 \<Rightarrow> nat \<Rightarrow> fault + (stop_cause \<times> trace_state)" where
  "trace_run T ty tx sy sx step maxs =
     bindE (set1 (replicate maxs (Fin 0)) 0 ty) (\<lambda>py0.
     bindE (set1 (replicate maxs (Fin 0)) 0 tx) (\<lambda>px0.
     trace_loop T sy sx step maxs 1 \<lparr>pos_y = ty, pos_x = tx, path_y = py0, path_x = px0, path_n = 1\<rparr>))"

definition trace_core ::
  "f64 array2 \<Rightarrow> f64 \<Rightarrow> f64 \<Rightarrow> f64 \<Rightarrow> f64 \<Rightarrow> f64 \<Rightarrow> nat \<Rightarrow> fault + (f64 list \<times> f64 list)" where
  "trace_core T ty tx sy sx step maxs =
     bindE (trace_run T ty tx sy sx step maxs) (\<lambda>(cause, s).
     Inr (take (path_n s) (path_y s), take (path_n s) (path_x s)))"

text \<open>\<open>trace_ray\<close>: at most 30000 points, returned as rows \<open>(y, x)\<close>.\<close>

definition trace_ray :: "f64 array2 \<Rightarrow> f64 \<times> f64 \<Rightarrow> f64 \<times> f64 \<Rightarrow> f64 \<Rightarrow> fault + (f64 \<times> f64) list" where
  "trace_ray T target source step =
     bindE (trace_core T (fst target) (snd target) (fst source) (snd source) step 30000)
       (\<lambda>(ys, xs). Inr (zip ys xs))"

section \<open>States of a run and example fields of the solver\<close>

text \<open>
  \<open>fmm_after k\<close> is the state after the first \<open>k\<close> iterations of the loop (or the final
  state, when the loop ends earlier).
\<close>

fun fmm_after :: "nat \<Rightarrow> f64 array2 \<Rightarrow> f64 \<Rightarrow> fmm_state \<Rightarrow> fault + fmm_state" where
  "fmm_after 0 slowness dx st = Inr st"
| "fmm_after (Suc k) slowness dx st =
     (if 0 < hs st then bindE (fmm_iter slowness dx st) (fmm_after k slowness dx) else Inr st)"

definition unit_field :: "f64 array2" where
  "unit_field = full2 2 2 (Fin 1)"

text \<open>
  \<open>same_shape st\<close>: the arrival times and the frozen markers have one shape, as lines 29
  and 30 make them. \<open>later_state st st'\<close>: no arrival time is larger in \<open>st'\<close> than in
  \<open>st\<close>, only cells not frozen in \<open>st\<close> have changed, and every cell frozen in \<open>st\<close> is frozen
  in \<open>st'\<close>.
  \<open>freezes slowness dx st i r c\<close>: iteration \<open>i\<close>, counted from \<open>st\<close>, sets the frozen marker
  of the cell \<open>(r, c)\<close>.
\<close>

definition same_shape :: "fmm_state \<Rightarrow> bool" where
  "same_shape st \<longleftrightarrow>
     nrows (st_T st) = nrows (frozen st) \<and> ncols (st_T st) = ncols (frozen st)"

definition later_state :: "fmm_state \<Rightarrow> fmm_state \<Rightarrow> bool" where
  "later_state st st' \<longleftrightarrow>
     (\<forall>r c. elems (st_T st') r c = elems (st_T st) r c \<or>
            (\<not> elems (frozen st) r c \<and> fless (elems (st_T st') r c) (elems (st_T st) r c))) \<and>
     (\<forall>r c. elems (frozen st) r c \<longrightarrow> elems (frozen st') r c)"

definition freezes :: "f64 array2 \<Rightarrow> f64 \<Rightarrow> fmm_state \<Rightarrow> nat \<Rightarrow> nat \<Rightarrow> nat \<Rightarrow> bool" where
  "freezes slowness dx st i r c \<longleftrightarrow>
     (\<exists>si si'. fmm_after i slowness dx st = Inr si \<and> 0 < hs si \<and>
        fmm_iter slowness dx si = Inr si' \<and>
        \<not> elems (frozen si) r c \<and> elems (frozen si') r c)"

text \<open>
  \<open>table2\<close> writes an array as the list of its rows, and \<open>sample_state\<close> a state of the
  solver as two such tables and the band as a list of entries. The sample field has the
  slowness 1, 2 in its first row and 1, 5 in its second.
\<close>

definition table2 :: "'a \<Rightarrow> 'a list list \<Rightarrow> 'a array2" where
  "table2 d rows =
     \<lparr>nrows = length rows, ncols = length (hd rows),
      elems = (\<lambda>r c. if r < length rows \<and> c < length (rows ! r) then rows ! r ! c else d),
      beyond = unspecified\<rparr>"

definition sample_field :: "f64 array2" where
  "sample_field = table2 (Fin 1) [[Fin 1, Fin 2], [Fin 1, Fin 5]]"

definition sample_state ::
  "f64 list list \<Rightarrow> bool list list \<Rightarrow> (f64 \<times> int \<times> int) list \<Rightarrow> nat \<Rightarrow> fmm_state" where
  "sample_state ts fs band k =
     \<lparr>st_T = table2 PInf ts, frozen = table2 False fs,
      heap_t = map fst band, heap_y = map (fst \<circ> snd) band, heap_x = map (snd \<circ> snd) band, hs = k\<rparr>"

text \<open>
  The axis minima as the specification words them, over the frozen neighbours only: a
  neighbour enters the minimum when it is inside the grid and its frozen marker is set.
  \<open>horiz_times\<close> and \<open>vert_times\<close> are the times stored at the neighbours inside the grid,
  frozen or not, and \<open>least_of m vs\<close> says that \<open>m\<close> is a least element of \<open>vs\<close>.
\<close>

definition take_min_frozen ::
  "bool \<Rightarrow> fault + bool \<Rightarrow> fault + f64 \<Rightarrow> f64 \<Rightarrow> fault + f64" where
  "take_min_frozen guard fz rd cur =
     (if guard
      then bindE fz (\<lambda>f. if f then bindE rd (\<lambda>v. Inr (if fless v cur then v else cur)) else Inr cur)
      else Inr cur)"

definition t_horiz_frozen :: "f64 array2 \<Rightarrow> bool array2 \<Rightarrow> int \<Rightarrow> int \<Rightarrow> int \<Rightarrow> fault + f64" where
  "t_horiz_frozen T fr y x nx =
     bindE (take_min_frozen (0 < x) (get2 fr y (x - 1)) (get2 T y (x - 1)) PInf) (\<lambda>t.
     take_min_frozen (x < nx - 1) (get2 fr y (x + 1)) (get2 T y (x + 1)) t)"

definition t_vert_frozen :: "f64 array2 \<Rightarrow> bool array2 \<Rightarrow> int \<Rightarrow> int \<Rightarrow> int \<Rightarrow> fault + f64" where
  "t_vert_frozen T fr y x ny =
     bindE (take_min_frozen (0 < y) (get2 fr (y - 1) x) (get2 T (y - 1) x) PInf) (\<lambda>t.
     take_min_frozen (y < ny - 1) (get2 fr (y + 1) x) (get2 T (y + 1) x) t)"

definition horiz_times :: "f64 array2 \<Rightarrow> int \<Rightarrow> int \<Rightarrow> f64 list" where
  "horiz_times T y x =
     (if 0 < x then [elems T (nat y) (nat (x - 1))] else []) @
     (if x < int (ncols T) - 1 then [elems T (nat y) (nat (x + 1))] else [])"

definition vert_times :: "f64 array2 \<Rightarrow> int \<Rightarrow> int \<Rightarrow> f64 list" where
  "vert_times T y x =
     (if 0 < y then [elems T (nat (y - 1)) (nat x)] else []) @
     (if y < int (nrows T) - 1 then [elems T (nat (y + 1)) (nat x)] else [])"

definition least_of :: "f64 \<Rightarrow> f64 list \<Rightarrow> bool" where
  "least_of m vs \<longleftrightarrow> m \<in> set vs \<and> (\<forall>v \<in> set vs. fle m v)"

text \<open>
  \<open>wf_state\<close>: the arrays of the state have the shape of the slowness field, the band is
  within its capacity and its entries in use are cells of the grid. \<open>near_frozen fr r c\<close>:
  one of the four neighbours of the cell \<open>(r, c)\<close> is frozen, the wavefront has reached the
  cell. \<open>reach_inv\<close> and \<open>src_inv\<close> are the invariants of the loop behind C6.
\<close>

definition wf_state :: "f64 array2 \<Rightarrow> fmm_state \<Rightarrow> bool" where
  "wf_state slowness st \<longleftrightarrow>
     nrows (st_T st) = nrows slowness \<and> ncols (st_T st) = ncols slowness \<and>
     nrows (frozen st) = nrows slowness \<and> ncols (frozen st) = ncols slowness \<and>
     length (heap_t st) = nrows slowness * ncols slowness \<and>
     length (heap_y st) = nrows slowness * ncols slowness \<and>
     length (heap_x st) = nrows slowness * ncols slowness \<and>
     hs st \<le> nrows slowness * ncols slowness \<and>
     (\<forall>i < hs st. 0 \<le> heap_y st ! i \<and> heap_y st ! i < int (nrows slowness) \<and>
                   0 \<le> heap_x st ! i \<and> heap_x st ! i < int (ncols slowness))"

definition near_frozen :: "bool array2 \<Rightarrow> nat \<Rightarrow> nat \<Rightarrow> bool" where
  "near_frozen fr r c \<longleftrightarrow>
     (0 < r \<and> elems fr (r - 1) c) \<or> (r + 1 < nrows fr \<and> elems fr (r + 1) c) \<or>
     (0 < c \<and> elems fr r (c - 1)) \<or> (c + 1 < ncols fr \<and> elems fr r (c + 1))"

definition reach_inv :: "int \<Rightarrow> int \<Rightarrow> fmm_state \<Rightarrow> bool" where
  "reach_inv sy sx st \<longleftrightarrow>
     (\<forall>r c. elems (st_T st) r c \<noteq> PInf \<longrightarrow>
            (r = nat sy \<and> c = nat sx) \<or> near_frozen (frozen st) r c)"

definition src_inv :: "int \<Rightarrow> int \<Rightarrow> fmm_state \<Rightarrow> bool" where
  "src_inv sy sx st \<longleftrightarrow>
     elems (st_T st) (nat sy) (nat sx) = Fin 0 \<and>
     (elems (frozen st) (nat sy) (nat sx) \<or>
      (hs st = 1 \<and> heap_y st ! 0 = sy \<and> heap_x st ! 0 = sx))"

section \<open>Predicates on paths and positions\<close>

text \<open>
  A coordinate lies inside an axis of length \<open>m\<close> when it is a number from 0 up to, and
  not including, \<open>m\<close>. \<open>path_ok\<close>, \<open>at_last\<close> and \<open>trace_inv\<close> are the invariants of the
  integration loop; \<open>stop_post\<close> says what holds when the loop has stopped for a cause.
\<close>

definition path_ok :: "f64 array2 \<Rightarrow> trace_state \<Rightarrow> bool" where
  "path_ok T s \<longleftrightarrow>
     (\<forall>k. 1 \<le> k \<and> k < path_n s \<longrightarrow> \<not> outside T (path_y s ! k) (path_x s ! k))"

definition at_last :: "trace_state \<Rightarrow> bool" where
  "at_last s \<longleftrightarrow>
     pos_y s = path_y s ! (path_n s - 1) \<and> pos_x s = path_x s ! (path_n s - 1)"

definition trace_inv :: "nat \<Rightarrow> f64 \<Rightarrow> f64 \<Rightarrow> trace_state \<Rightarrow> bool" where
  "trace_inv maxs ty tx s \<longleftrightarrow>
     length (path_y s) = maxs \<and> length (path_x s) = maxs \<and>
     1 \<le> path_n s \<and> path_n s \<le> maxs \<and>
     path_y s ! 0 = ty \<and> path_x s ! 0 = tx"

fun stop_post :: "f64 array2 \<Rightarrow> f64 \<Rightarrow> f64 \<Rightarrow> f64 \<Rightarrow> nat \<Rightarrow> stop_cause \<Rightarrow> trace_state \<Rightarrow> bool" where
  "stop_post T sy sx step maxs Stationary s \<longleftrightarrow>
     at_last s \<and>
     (\<exists>gy gx. gradient T (pos_y s) (pos_x s) = Inr (gy, gx) \<and>
              fless (fsqrt (fadd (fsquare gy) (fsquare gx))) (Fin (1 / 10 ^ 10)))"
| "stop_post T sy sx step maxs LeftGrid s \<longleftrightarrow> outside T (pos_y s) (pos_x s)"
| "stop_post T sy sx step maxs ReachedSource s \<longleftrightarrow>
     at_last s \<and> near_source (pos_y s) (pos_x s) sy sx step"
| "stop_post T sy sx step maxs MaxSteps s \<longleftrightarrow> path_n s = maxs"

definition in_range :: "nat \<Rightarrow> f64 \<Rightarrow> bool" where
  "in_range m v = (case v of Fin a \<Rightarrow> 0 \<le> a \<and> a < real m | _ \<Rightarrow> False)"


text \<open>Four small fields for the examples: constant, with a single row (and the value 1
  in the memory after it), rising along the columns, and everywhere unreached.\<close>

definition flat_field :: "f64 array2" where
  "flat_field = full2 2 2 (Fin 0)"



definition unreached_field :: "f64 array2" where
  "unreached_field = full2 2 2 PInf"

text \<open>
  \<open>is_fin v\<close>: the float is a number, neither infinite nor NaN. \<open>finite_block T\<close>: every
  value that \<open>_gradient\<close> can read from the field is a number; its 2 by 2 block lies in the
  rows and columns from 0 up to the length of the axis, or up to 2 where the axis is
  shorter than that. \<open>finite_path s\<close>: the position and every point of the path after the
  first are numbers.
\<close>

definition is_fin :: "f64 \<Rightarrow> bool" where
  "is_fin v = (case v of Fin a \<Rightarrow> True | _ \<Rightarrow> False)"



section \<open>The stencil and the quadratic\<close>

lemma quad_factor:
  assumes "0 \<le> quad_disc a b h"
  shows "quad a b h t = 2 * (t - (2 * (a + b) + sqrt (quad_disc a b h)) / 4) * (t - (2 * (a + b) - sqrt (quad_disc a b h)) / 4)"
proof -
  define D where "D = quad_disc a b h"
  have sq: "sqrt D * sqrt D = D" using assms by (simp add: D_def)
  have id: "2 * (t - (2 * (a + b) + u) / 4) * (t - (2 * (a + b) - u) / 4)
        = 2 * t\<^sup>2 - 2 * (a + b) * t + ((2 * (a + b))\<^sup>2 - u * u) / 8" for u :: real
    by (simp add: field_simps power2_eq_square)
  have "((2 * (a + b))\<^sup>2 - D) / 8 = a\<^sup>2 + b\<^sup>2 - h\<^sup>2"
    by (simp add: D_def quad_disc_def field_simps power2_eq_square)
  then have "2 * (t - (2 * (a + b) + sqrt D) / 4) * (t - (2 * (a + b) - sqrt D) / 4) = quad a b h t"
    unfolding id sq by (simp add: quad_def)
  then show ?thesis by (simp add: D_def)
qed

lemma larger_root_formula:
  assumes "0 \<le> quad_disc a b h"
  shows "is_larger_root a b h ((2 * (a + b) + sqrt (quad_disc a b h)) / 4)"
proof -
  have s: "0 \<le> sqrt (quad_disc a b h)" using assms by simp
  show ?thesis
    unfolding is_larger_root_def
  proof (intro conjI allI impI)
    show "quad a b h ((2 * (a + b) + sqrt (quad_disc a b h)) / 4) = 0"
      by (simp add: quad_factor[OF assms])
  next
    fix t assume q0: "quad a b h t = 0"
    define X where "X = t - (2 * (a + b) + sqrt (quad_disc a b h)) / 4"
    define Y where "Y = t - (2 * (a + b) - sqrt (quad_disc a b h)) / 4"
    have "2 * X * Y = 0"
      using q0 quad_factor[OF assms, of t] by (simp only: X_def Y_def)
    then have "X = 0 \<or> Y = 0" by simp
    then show "t \<le> (2 * (a + b) + sqrt (quad_disc a b h)) / 4"
    proof
      assume "X = 0" then show ?thesis by (simp add: X_def)
    next
      assume "Y = 0"
      then have "t = (2 * (a + b) - sqrt (quad_disc a b h)) / 4" by (simp add: Y_def)
      also have "\<dots> \<le> (2 * (a + b) + sqrt (quad_disc a b h)) / 4" using s by simp
      finally show ?thesis .
    qed
  qed
qed

lemma no_root:
  assumes "quad_disc a b h < 0"
  shows "quad a b h t \<noteq> 0"
proof -
  have "quad a b h t = 2 * (t - (a + b) / 2)\<^sup>2 - quad_disc a b h / 8"
    by (simp add: quad_def quad_disc_def power2_eq_square field_simps)
  moreover have "0 \<le> 2 * (t - (a + b) / 2)\<^sup>2" by simp
  ultimately show ?thesis using assms by linarith
qed

lemma two_axis_fin:
  "two_axis (Fin a) (Fin b) (Fin s) (Fin d) =
     (if 0 \<le> quad_disc a b (s * d) \<and> b \<le> (2 * (a + b) + sqrt (quad_disc a b (s * d))) / 4
      then Some (Fin ((2 * (a + b) + sqrt (quad_disc a b (s * d))) / 4)) else None)"
proof -
  define D where "D = quad_disc a b (s * d)"
  define B where "B = fmul (Fin (- 2)) (fadd (Fin a) (Fin b))"
  define C where "C = fsub (fadd (fsquare (Fin a)) (fsquare (Fin b))) (fsquare (fmul (Fin s) (Fin d)))"
  have B: "B = Fin (- 2 * (a + b))" by (simp add: B_def)
  have C: "C = Fin (a\<^sup>2 + b\<^sup>2 - (s * d)\<^sup>2)"
    by (simp add: C_def fsquare_def fsub_def power2_eq_square)
  have disc: "fsub (fmul B B) (fmul (fmul (Fin 4) (Fin 2)) C) = Fin D"
    unfolding B C by (simp add: fsub_def D_def quad_disc_def power2_eq_square algebra_simps)
  have tnew: "fdiv (fadd (fneg B) (fsqrt (Fin D))) (fmul (Fin 2) (Fin 2)) = Fin ((2 * (a + b) + sqrt D) / 4)"
    if "0 \<le> D"
    unfolding B using that by simp
  have "two_axis (Fin a) (Fin b) (Fin s) (Fin d) =
          (if fge (Fin D) (Fin 0)
           then (let t_new = fdiv (fadd (fneg B) (fsqrt (Fin D))) (fmul (Fin 2) (Fin 2))
                 in if fge t_new (Fin b) then Some t_new else None)
           else None)"
    unfolding two_axis_def Let_def B_def[symmetric] C_def[symmetric] disc ..
  also have "\<dots> = (if 0 \<le> D \<and> b \<le> (2 * (a + b) + sqrt D) / 4
      then Some (Fin ((2 * (a + b) + sqrt D) / 4)) else None)"
    unfolding B by (cases "0 \<le> D") (simp_all add: fge_def Let_def)
  finally show ?thesis unfolding D_def .
qed

text \<open>
  C1. With \<open>t1\<close> and \<open>t2\<close> the smaller and the larger axis minimum as line 15 orders them:
  when \<open>t1\<close> is \<open>+\<infinity>\<close> the candidate is \<open>+\<infinity>\<close>. When \<open>t1\<close>, \<open>t2\<close>, the slowness and the
  spacing are finite, and the discriminant of \<open>2 t\<^sup>2 - 2 (t1 + t2) t + (t1\<^sup>2 + t2\<^sup>2 - (slowness
  spacing)\<^sup>2)\<close> is not negative, the quadratic has a larger root, and the candidate is that
  root if it is at least \<open>t2\<close> and \<open>t1 + slowness spacing\<close> otherwise; when the discriminant is
  negative the quadratic has no root and the candidate is \<open>t1 + slowness spacing\<close>.
\<close>

theorem stencil_candidate:
  assumes "order_pair t_horiz t_vert = (t1, t2)"
  shows "(t1 = PInf \<longrightarrow> stencil t_horiz t_vert slow dx = PInf) \<and>
         (\<forall>a b s d. t1 = Fin a \<and> t2 = Fin b \<and> slow = Fin s \<and> dx = Fin d \<longrightarrow>
            (0 \<le> quad_disc a b (s * d) \<longrightarrow>
               (\<exists>r. is_larger_root a b (s * d) r \<and>
                    stencil t_horiz t_vert slow dx = (if b \<le> r then Fin r else Fin (a + s * d)))) \<and>
            (quad_disc a b (s * d) < 0 \<longrightarrow>
               (\<forall>t. quad a b (s * d) t \<noteq> 0) \<and>
               stencil t_horiz t_vert slow dx = Fin (a + s * d)))"
proof (intro conjI allI impI)
  assume "t1 = PInf"
  then show "stencil t_horiz t_vert slow dx = PInf"
    using assms by (simp add: stencil_def)
next
  fix a b s d
  assume fin: "t1 = Fin a \<and> t2 = Fin b \<and> slow = Fin s \<and> dx = Fin d"
  assume D: "0 \<le> quad_disc a b (s * d)"
  let ?r = "(2 * (a + b) + sqrt (quad_disc a b (s * d))) / 4"
  have "stencil t_horiz t_vert slow dx = (if b \<le> ?r then Fin ?r else Fin (a + s * d))"
    using assms fin D by (simp add: stencil_def two_axis_fin)
  with larger_root_formula[OF D]
  show "\<exists>r. is_larger_root a b (s * d) r \<and>
           stencil t_horiz t_vert slow dx = (if b \<le> r then Fin r else Fin (a + s * d))"
    by blast
next
  fix a b s d t
  assume "quad_disc a b (s * d) < 0"
  then show "quad a b (s * d) t \<noteq> 0" by (rule no_root)
next
  fix a b s d
  assume fin: "t1 = Fin a \<and> t2 = Fin b \<and> slow = Fin s \<and> dx = Fin d"
  assume "quad_disc a b (s * d) < 0"
  then show "stencil t_horiz t_vert slow dx = Fin (a + s * d)"
    using assms fin by (simp add: stencil_def two_axis_fin)
qed

theorem stencil_candidate_witness:
  "order_pair (Fin 0) (Fin 1) = (Fin 0, Fin 1) \<and> 0 \<le> quad_disc 0 1 (5 * 1) \<and>
   stencil (Fin 0) (Fin 1) (Fin 5) (Fin 1) = Fin 4"
proof -
  have op: "order_pair (Fin 0) (Fin 1) = (Fin 0, Fin 1)" by (simp add: order_pair_def)
  have D: "0 \<le> quad_disc 0 1 (5 * 1)" by (simp add: quad_disc_def)
  from stencil_candidate[OF op, of "Fin 5" "Fin 1"] D
  obtain r where r: "is_larger_root 0 1 (5 * 1) r"
    and st: "stencil (Fin 0) (Fin 1) (Fin 5) (Fin 1) = (if 1 \<le> r then Fin r else Fin (0 + 5 * 1))"
    by blast
  have "quad 0 1 (5 * 1) 4 = 0" by (simp add: quad_def)
  with r have r4: "4 \<le> r" by (simp add: is_larger_root_def)
  from r have "quad 0 1 (5 * 1) r = 0" by (simp add: is_larger_root_def)
  then have "2 * ((r - 4) * (r + 3)) = 0" by (simp add: quad_def power2_eq_square algebra_simps)
  then have "r = 4" using r4 by auto
  with st op D show ?thesis by simp
qed

section \<open>The ray tracer: invariants of the integration loop\<close>

lemma cell_of_in_range:
  assumes "0 \<le> y" and "y < int (nrows a)" and "0 \<le> x" and "x < int (ncols a)"
  shows "cell_of a y x = Some (nat y, nat x)"
proof -
  define r c n where "r = nat y" and "c = nat x" and "n = ncols a"
  have y: "y = int r" and x: "x = int c" using assms by (simp_all add: r_def c_def)
  have r: "r < nrows a" and c: "c < n" using assms by (simp_all add: r_def c_def n_def)
  have k: "offset2 a y x = int (r * n + c)"
    by (simp add: offset2_def wraparound_def y x n_def)
  have "r * n + c < Suc r * n" using c by simp
  also have "\<dots> \<le> nrows a * n" using r by (intro mult_le_mono1) simp
  finally have lt: "int (r * n + c) < int (nrows a * n)" by (simp only: of_nat_less_iff)
  have dm: "(r * n + c) div n = r" "(r * n + c) mod n = c" using c by simp_all
  have "cell_of a y x = Some ((r * n + c) div n, (r * n + c) mod n)"
    unfolding cell_of_def k Let_def n_def[symmetric] nat_int using lt
    by (simp only: of_nat_0_le_iff if_True simp_thms)
  then show ?thesis unfolding dm by (simp only: r_def c_def)
qed

lemma get2_in_range:
  "0 \<le> y \<Longrightarrow> y < int (nrows a) \<Longrightarrow> 0 \<le> x \<Longrightarrow> x < int (ncols a) \<Longrightarrow>
   get2 a y x = Inr (elems a (nat y) (nat x))"
  by (simp add: get2_cell cell_of_in_range)

lemma set2_in_range:
  "0 \<le> y \<Longrightarrow> y < int (nrows a) \<Longrightarrow> 0 \<le> x \<Longrightarrow> x < int (ncols a) \<Longrightarrow>
   set2 a y x v = Inr (a\<lparr>elems := (elems a)(nat y := (elems a (nat y))(nat x := v))\<rparr>)"
  by (simp add: set2_def cell_of_in_range)




lemma py_int_Fin: "\<exists>i. py_int (Fin a) = Inr i"
  by simp




lemma trace_step_cases:
  assumes "trace_step T sy sx step s = Inr (c, s')"
  shows "(c = Some Stationary \<and> s' = s \<and>
            (\<exists>gy gx. gradient T (pos_y s) (pos_x s) = Inr (gy, gx) \<and>
                     fless (fsqrt (fadd (fsquare gy) (fsquare gx))) (Fin (1 / 10 ^ 10)))) \<or>
         (c = Some LeftGrid \<and> outside T (pos_y s') (pos_x s') \<and>
            path_y s' = path_y s \<and> path_x s' = path_x s \<and> path_n s' = path_n s) \<or>
         ((c = Some ReachedSource \<and> near_source (pos_y s') (pos_x s') sy sx step \<or>
           c = None \<and> \<not> near_source (pos_y s') (pos_x s') sy sx step) \<and>
            \<not> outside T (pos_y s') (pos_x s') \<and>
            path_n s < length (path_y s) \<and> path_n s < length (path_x s) \<and>
            path_y s' = (path_y s)[path_n s := pos_y s'] \<and>
            path_x s' = (path_x s)[path_n s := pos_x s'] \<and>
            path_n s' = path_n s + 1)"
  using assms
  by (auto simp: trace_step_def bindE_eq_Inr Let_def set1_eq_Inr split: if_splits)


lemma trace_step_inv:
  assumes st: "trace_step T sy sx step s = Inr (c, s')"
    and inv: "trace_inv maxs ty tx s" "path_ok T s" "at_last s"
  shows "trace_inv maxs ty tx s' \<and> path_ok T s' \<and>
         (case c of None \<Rightarrow> at_last s' \<and> path_n s' = path_n s + 1
                  | Some cause \<Rightarrow> stop_post T sy sx step maxs cause s')"
proof -
  from trace_step_cases[OF st]
  consider (stat) "c = Some Stationary" "s' = s"
      "\<exists>gy gx. gradient T (pos_y s) (pos_x s) = Inr (gy, gx) \<and>
               fless (fsqrt (fadd (fsquare gy) (fsquare gx))) (Fin (1 / 10 ^ 10))"
    | (left) "c = Some LeftGrid" "outside T (pos_y s') (pos_x s')"
        "path_y s' = path_y s" "path_x s' = path_x s" "path_n s' = path_n s"
    | (app) "c = Some ReachedSource \<and> near_source (pos_y s') (pos_x s') sy sx step \<or>
             c = None \<and> \<not> near_source (pos_y s') (pos_x s') sy sx step"
        "\<not> outside T (pos_y s') (pos_x s')"
        "path_n s < length (path_y s)" "path_n s < length (path_x s)"
        "path_y s' = (path_y s)[path_n s := pos_y s']"
        "path_x s' = (path_x s)[path_n s := pos_x s']"
        "path_n s' = path_n s + 1"
    by blast
  then show ?thesis
  proof cases
    case stat
    with inv show ?thesis by simp
  next
    case left
    with inv show ?thesis by (simp add: trace_inv_def path_ok_def)
  next
    case app
    have i: "trace_inv maxs ty tx s'"
      using inv(1) app(3-7) by (simp add: trace_inv_def)
    have p: "path_ok T s'"
      unfolding path_ok_def
    proof (intro allI impI)
      fix k assume k: "1 \<le> k \<and> k < path_n s'"
      show "\<not> outside T (path_y s' ! k) (path_x s' ! k)"
      proof (cases "k = path_n s")
        case True
        then show ?thesis using app by simp
      next
        case False
        with k app(7) have "k < path_n s" by simp
        with inv(2) k False show ?thesis by (simp add: path_ok_def app(5,6))
      qed
    qed
    have l: "at_last s'" using app(3-7) by (simp add: at_last_def)
    from app(1) show ?thesis
    proof
      assume "c = Some ReachedSource \<and> near_source (pos_y s') (pos_x s') sy sx step"
      with i p l show ?thesis by simp
    next
      assume "c = None \<and> \<not> near_source (pos_y s') (pos_x s') sy sx step"
      with i p l app(7) show ?thesis by simp
    qed
  qed
qed

lemma trace_loop_post:
  "trace_loop T sy sx step maxs i s = Inr (cause, s') \<Longrightarrow>
   trace_inv maxs ty tx s \<Longrightarrow> path_ok T s \<Longrightarrow> at_last s \<Longrightarrow> path_n s = i \<Longrightarrow>
   trace_inv maxs ty tx s' \<and> path_ok T s' \<and> stop_post T sy sx step maxs cause s'"
proof (induction T sy sx step maxs i s rule: trace_loop.induct)
  case (1 T sy sx step maxs i s)
  show ?case
  proof (cases "i < maxs")
    case False
    with "1.prems" show ?thesis by (simp add: trace_inv_def)
  next
    case True
    with "1.prems"(1) obtain c s1 where st: "trace_step T sy sx step s = Inr (c, s1)"
      by (auto split: sum.splits)
    note si = trace_step_inv[OF st "1.prems"(2,3,4)]
    show ?thesis
    proof (cases c)
      case (Some a)
      with True st "1.prems"(1) have "cause = a" "s' = s1" by simp_all
      with si Some show ?thesis by simp
    next
      case None
      with True st "1.prems"(1) have lp: "trace_loop T sy sx step maxs (Suc i) s1 = Inr (cause, s')"
        by simp
      from si None "1.prems"(5) have "path_n s1 = Suc i" by simp
      with "1.IH"[OF True st refl None lp] si None show ?thesis by simp
    qed
  qed
qed



lemma not_outside_iff:
  "\<not> outside T y x \<longleftrightarrow>
     (y = NaN \<or> in_range (nrows T) y) \<and> (x = NaN \<or> in_range (ncols T) x)"
  by (cases y; cases x) (auto simp: outside_def in_range_def fge_def of_int64_def)

lemma trace_run_init:
  assumes "set1 (replicate maxs (Fin 0)) 0 ty = Inr py0" and "set1 (replicate maxs (Fin 0)) 0 tx = Inr px0"
  shows "trace_inv maxs ty tx \<lparr>pos_y = ty, pos_x = tx, path_y = py0, path_x = px0, path_n = 1\<rparr>"
    and "path_ok T \<lparr>pos_y = ty, pos_x = tx, path_y = py0, path_x = px0, path_n = 1\<rparr>"
    and "at_last \<lparr>pos_y = ty, pos_x = tx, path_y = py0, path_x = px0, path_n = 1\<rparr>"
  using assms by (auto simp: set1_eq_Inr trace_inv_def path_ok_def at_last_def)

lemma trace_run_post:
  assumes "trace_run T ty tx sy sx step maxs = Inr (cause, s)"
  shows "trace_inv maxs ty tx s \<and> path_ok T s \<and> stop_post T sy sx step maxs cause s"
proof -
  from assms obtain py0 px0 where
    a: "set1 (replicate maxs (Fin 0)) 0 ty = Inr py0" and b: "set1 (replicate maxs (Fin 0)) 0 tx = Inr px0"
    and lp: "trace_loop T sy sx step maxs 1
               \<lparr>pos_y = ty, pos_x = tx, path_y = py0, path_x = px0, path_n = 1\<rparr> = Inr (cause, s)"
    by (auto simp: trace_run_def bindE_eq_Inr)
  show ?thesis
    by (rule trace_loop_post[OF lp trace_run_init[OF a b]]) simp
qed


lemma trace_core_eq_Inr:
  "trace_core T ty tx sy sx step maxs = Inr (ys, xs) \<longleftrightarrow>
     (\<exists>cause s. trace_run T ty tx sy sx step maxs = Inr (cause, s) \<and>
        ys = take (path_n s) (path_y s) \<and> xs = take (path_n s) (path_x s))"
  by (auto simp: trace_core_def bindE_eq_Inr)

lemma trace_core_path:
  assumes "trace_core T ty tx sy sx step maxs = Inr (ys, xs)"
  shows "1 \<le> length ys" and "length ys \<le> maxs" and "length xs = length ys"
    and "ys ! 0 = ty" and "xs ! 0 = tx"
    and "\<And>k. 0 < k \<Longrightarrow> k < length ys \<Longrightarrow> \<not> outside T (ys ! k) (xs ! k)"
proof -
  from assms obtain cause s where r: "trace_run T ty tx sy sx step maxs = Inr (cause, s)"
    and ys: "ys = take (path_n s) (path_y s)" and xs: "xs = take (path_n s) (path_x s)"
    by (auto simp: trace_core_eq_Inr)
  from trace_run_post[OF r] have i: "trace_inv maxs ty tx s" and p: "path_ok T s" by simp_all
  from i have len: "length ys = path_n s" "length xs = path_n s"
    by (simp_all add: ys xs trace_inv_def)
  from i len show "1 \<le> length ys" "length ys \<le> maxs" "length xs = length ys"
    by (simp_all add: trace_inv_def)
  from i show "ys ! 0 = ty" "xs ! 0 = tx" by (simp_all add: ys xs trace_inv_def)
  fix k assume "0 < k" "k < length ys"
  with p len show "\<not> outside T (ys ! k) (xs ! k)" by (simp add: path_ok_def ys xs)
qed

subsection \<open>The ray tracer on the example fields\<close>

lemma trace_loop_stationary:
  assumes "i < maxs" and "trace_step T sy sx step s = Inr (Some Stationary, s')"
  shows "trace_loop T sy sx step maxs i s = Inr (Stationary, s')"
  using assms by simp

lemma take_one_update: "xs \<noteq> [] \<Longrightarrow> take (Suc 0) (xs[0 := v]) = [v]"
  by (cases xs) simp_all

lemma trace_core_stationary:
  assumes "1 < maxs"
    and "\<And>py0 px0. trace_step T sy sx step \<lparr>pos_y = ty, pos_x = tx, path_y = py0, path_x = px0, path_n = 1\<rparr>
           = Inr (Some Stationary, \<lparr>pos_y = ty, pos_x = tx, path_y = py0, path_x = px0, path_n = 1\<rparr>)"
  shows "trace_core T ty tx sy sx step maxs = Inr ([ty], [tx])"
proof -
  have ne: "replicate maxs (Fin 0) \<noteq> []" using assms(1) by auto
  have "trace_run T ty tx sy sx step maxs =
          Inr (Stationary, \<lparr>pos_y = ty, pos_x = tx, path_y = (replicate maxs (Fin 0))[0 := ty],
                            path_x = (replicate maxs (Fin 0))[0 := tx], path_n = 1\<rparr>)"
    unfolding trace_run_def
    using assms(1) by (simp add: set1_def trace_loop_stationary[OF assms(1) assms(2)] del: trace_loop.simps One_nat_def)
  then show ?thesis
    by (simp add: trace_core_def take_one_update[OF ne])
qed

lemma gradient_flat:
  "gradient flat_field (Fin 5) (Fin 5) = Inr (Fin 0, Fin 0)"
  by (simp add: gradient_def Let_def flat_field_def full2_def of_int64_def fsub_def py_min_def py_max_def
        get2_in_range)

lemma trace_ray_flat:
  "trace_ray flat_field (Fin 5, Fin 5) (Fin 0, Fin 0) (Fin (1 / 2)) = Inr [(Fin 5, Fin 5)]"
proof -
  have "trace_core flat_field (Fin 5) (Fin 5) (Fin 0) (Fin 0) (Fin (1 / 2)) 30000
          = Inr ([Fin 5], [Fin 5])"
    by (rule trace_core_stationary) (simp_all add: trace_step_def gradient_flat fsquare_def)
  then show ?thesis by (simp add: trace_ray_def)
qed



lemma gradient_unreached:
  "gradient unreached_field (Fin 0) (Fin 0) = Inr (NaN, NaN)"
  by (simp add: gradient_def Let_def unreached_field_def full2_def of_int64_def fsub_def py_min_def py_max_def
        get2_in_range)

lemma trace_core_unreached:
  "trace_core unreached_field (Fin 0) (Fin 0) (Fin 0) (Fin 0) (Fin (1 / 2)) 2
     = Inr ([Fin 0, NaN], [Fin 0, NaN])"
proof -
  have st: "trace_step unreached_field (Fin 0) (Fin 0) (Fin (1 / 2))
              \<lparr>pos_y = Fin 0, pos_x = Fin 0, path_y = [Fin 0, Fin 0],
               path_x = [Fin 0, Fin 0], path_n = 1\<rparr>
            = Inr (None, \<lparr>pos_y = NaN, pos_x = NaN, path_y = [Fin 0, NaN],
               path_x = [Fin 0, NaN], path_n = 2\<rparr>)"
    unfolding trace_step_def trace_state.simps gradient_unreached
    by (simp add: fsquare_def py_div_def fsub_def Let_def outside_def
          unreached_field_def full2_def fge_def of_int64_def set1_def near_source_def)
  have rp: "replicate 2 (Fin 0) = [Fin 0, Fin 0]" by (simp add: numeral_2_eq_2)
  have "trace_run unreached_field (Fin 0) (Fin 0) (Fin 0) (Fin 0) (Fin (1 / 2)) 2
          = Inr (MaxSteps, \<lparr>pos_y = NaN, pos_x = NaN, path_y = [Fin 0, NaN],
               path_x = [Fin 0, NaN], path_n = 2\<rparr>)"
    unfolding trace_run_def rp
    by (simp add: set1_def st del: One_nat_def)
  then show ?thesis by (simp add: trace_core_def)
qed







lemma in_range_iff: "in_range m v \<longleftrightarrow> is_fin v \<and> \<not> fless v (Fin 0) \<and> \<not> fge v (of_int64 (int m))"
  by (cases v) (auto simp: in_range_def is_fin_def fge_def of_int64_def)





section \<open>The solver: runs\<close>

lemma fmm_loop_after:
  "fmm_loop slowness dx st = bindE (fmm_after k slowness dx st) (fmm_loop slowness dx)"
proof (induction k arbitrary: st)
  case 0
  show ?case by simp
next
  case (Suc k)
  show ?case
  proof (cases "0 < hs st")
    case False
    then show ?thesis by (simp add: fmm_loop_done)
  next
    case True
    show ?thesis
    proof (cases "fmm_iter slowness dx st")
      case (Inl e)
      with True show ?thesis by (simp add: fmm_loop_error)
    next
      case (Inr st')
      with True Suc.IH[of st'] show ?thesis by (simp add: fmm_loop_step)
    qed
  qed
qed

lemma fmm_init_wrapped:
  "fmm_init unit_field (- 1) (- 1) =
     Inr \<lparr>st_T = \<lparr>nrows = 2, ncols = 2, elems = (\<lambda>r c. PInf)(1 := (\<lambda>c. PInf)(1 := Fin 0)), beyond = unspecified\<rparr>,
          frozen = full2 2 2 False,
          heap_t = [Fin 0, PInf, PInf, PInf], heap_y = [- 1, 0, 0, 0], heap_x = [- 1, 0, 0, 0], hs = 1\<rparr>"
proof -
  have "set2 (full2 2 2 PInf) (- 1) (- 1) (Fin 0)
          = Inr \<lparr>nrows = 2, ncols = 2, elems = (\<lambda>r c. PInf)(1 := (\<lambda>c. PInf)(1 := Fin 0)),
                 beyond = unspecified\<rparr>"
    by (simp add: set2_def cell_of_def offset2_def wraparound_def full2_def)
  moreover have "nrows unit_field = 2" "ncols unit_field = 2"
    by (simp_all add: unit_field_def full2_def)
  ultimately show ?thesis
    by (simp add: fmm_init_def set1_def Let_def numeral_eq_Suc)
qed


lemma fmm_iter_wrapped:
  "fmm_iter unit_field (Fin 1)
     \<lparr>st_T = \<lparr>nrows = 2, ncols = 2, elems = (\<lambda>r c. PInf)(1 := (\<lambda>c. PInf)(1 := Fin 0)), beyond = unspecified\<rparr>,
      frozen = full2 2 2 False,
      heap_t = [Fin 0, PInf, PInf, PInf], heap_y = [- 1, 0, 0, 0], heap_x = [- 1, 0, 0, 0], hs = 1\<rparr>
   = Inr \<lparr>st_T = \<lparr>nrows = 2, ncols = 2, elems = (\<lambda>r c. PInf)(1 := (\<lambda>c. PInf)(1 := Fin 0)), beyond = unspecified\<rparr>,
      frozen = \<lparr>nrows = 2, ncols = 2, elems = (\<lambda>r c. False)(1 := (\<lambda>c. False)(1 := True)), beyond = unspecified\<rparr>,
      heap_t = [Fin 0, PInf, PInf, PInf], heap_y = [- 1, 0, 0, 0], heap_x = [- 1, 0, 0, 0], hs = 0\<rparr>"
  by (simp add: fmm_iter_def pop_min_def get1_def get2_def set2_def cell_of_def offset2_def wraparound_def full2_def
        neighbours_def relax_def unit_field_def Let_def)

lemma fmm_core_eq:
  "fmm_core slowness sy sx dx =
     bindE (bindE (fmm_init slowness sy sx) (fmm_loop slowness dx)) (\<lambda>st. Inr (st_T st))"
  by (cases "fmm_init slowness sy sx") (simp_all add: fmm_core_def)

lemma fless_trans: "fless a b \<Longrightarrow> fless b c \<Longrightarrow> fless a c"
  by (cases a; cases b; cases c) simp_all

lemma fless_irrefl [simp]: "\<not> fless a a"
  by (cases a) simp_all

lemma later_state_refl: "later_state st st"
  by (simp add: later_state_def)

lemma later_state_trans:
  assumes "later_state st st1" and "later_state st1 st2"
  shows "later_state st st2"
  unfolding later_state_def
proof (intro conjI allI)
  fix r c
  from assms show "elems (frozen st) r c \<longrightarrow> elems (frozen st2) r c"
    by (simp add: later_state_def)
  from assms have a: "elems (st_T st1) r c = elems (st_T st) r c \<or>
            (\<not> elems (frozen st) r c \<and> fless (elems (st_T st1) r c) (elems (st_T st) r c))"
    and b: "elems (st_T st2) r c = elems (st_T st1) r c \<or>
            (\<not> elems (frozen st1) r c \<and> fless (elems (st_T st2) r c) (elems (st_T st1) r c))"
    and f: "elems (frozen st) r c \<longrightarrow> elems (frozen st1) r c"
    by (simp_all add: later_state_def)
  from a b f show "elems (st_T st2) r c = elems (st_T st) r c \<or>
            (\<not> elems (frozen st) r c \<and> fless (elems (st_T st2) r c) (elems (st_T st) r c))"
    by (auto intro: fless_trans)
qed

lemma set2_shape: "set2 a y x v = Inr b \<Longrightarrow> nrows b = nrows a \<and> ncols b = ncols a"
  by (auto simp: set2_eq_Inr)

lemma relax_shape:
  "relax slowness dx y x st = Inr st' \<Longrightarrow>
   nrows (st_T st') = nrows (st_T st) \<and> ncols (st_T st') = ncols (st_T st)"
  by (auto simp: relax_def Let_def bindE_eq_Inr set2_eq_Inr split: if_splits dest!: push_frame)

lemma relax_all_shape:
  "relax_all slowness dx ns st = Inr st' \<Longrightarrow>
   nrows (st_T st') = nrows (st_T st) \<and> ncols (st_T st') = ncols (st_T st)"
proof (induction ns arbitrary: st)
  case Nil
  then show ?case by simp
next
  case (Cons a ns)
  obtain y x where a: "a = (y, x)" by (cases a)
  from Cons.prems obtain st1 where 1: "relax slowness dx y x st = Inr st1"
    and 2: "relax_all slowness dx ns st1 = Inr st'"
    by (auto simp: a bindE_eq_Inr)
  from relax_shape[OF 1] Cons.IH[OF 2] show ?case by simp
qed

lemma relax_same_shape:
  "relax slowness dx y x st = Inr st' \<Longrightarrow> same_shape st \<Longrightarrow> same_shape st'"
  using relax_shape[of slowness dx y x st st'] relax_frozen[of slowness dx y x st st']
  by (simp add: same_shape_def)

lemma relax_all_same_shape:
  "relax_all slowness dx ns st = Inr st' \<Longrightarrow> same_shape st \<Longrightarrow> same_shape st'"
  using relax_all_shape[of slowness dx ns st st'] relax_all_frozen[of slowness dx ns st st']
  by (simp add: same_shape_def)

lemma fmm_iter_same_shape:
  assumes "fmm_iter slowness dx st = Inr st'" and "same_shape st"
  shows "same_shape st'"
proof -
  from assms(1) obtain mt y x st1 fz where pop: "pop_min st = Inr (mt, y, x, st1)"
    and rest: "(if fz then Inr st1 else bindE (set2 (frozen st1) y x True)
                 (\<lambda>fr. relax_all slowness dx (neighbours y x) (st1\<lparr>frozen := fr\<rparr>))) = Inr st'"
    by (auto simp: fmm_iter_def bindE_eq_Inr)
  note fr = pop_min_frame[OF pop]
  from fr assms(2) have s1: "same_shape st1" by (simp add: same_shape_def)
  show ?thesis
  proof (cases fz)
    case True
    with rest s1 show ?thesis by simp
  next
    case False
    with rest obtain fr' where s: "set2 (frozen st1) y x True = Inr fr'"
      and r: "relax_all slowness dx (neighbours y x) (st1\<lparr>frozen := fr'\<rparr>) = Inr st'"
      by (auto simp: bindE_eq_Inr)
    from set2_shape[OF s] s1 have "same_shape (st1\<lparr>frozen := fr'\<rparr>)" by (simp add: same_shape_def)
    from relax_all_same_shape[OF r this] show ?thesis .
  qed
qed

lemma fmm_after_same_shape:
  "fmm_after k slowness dx st = Inr st' \<Longrightarrow> same_shape st \<Longrightarrow> same_shape st'"
proof (induction k arbitrary: st)
  case 0
  then show ?case by simp
next
  case (Suc k)
  show ?case
  proof (cases "0 < hs st")
    case False
    with Suc.prems show ?thesis by simp
  next
    case True
    with Suc.prems obtain st1 where 1: "fmm_iter slowness dx st = Inr st1"
      and 2: "fmm_after k slowness dx st1 = Inr st'"
      by (auto simp: bindE_eq_Inr)
    from Suc.IH[OF 2 fmm_iter_same_shape[OF 1 Suc.prems(2)]] show ?thesis .
  qed
qed

lemma relax_later:
  assumes "relax slowness dx y x st = Inr st'" and "same_shape st"
  shows "later_state st st'"
proof (cases "st' = st")
  case True
  then show ?thesis by (simp add: later_state_refl)
next
  case False
  with assms(1) obtain tn cur T' where fz: "get2 (frozen st) y x = Inr False"
    and cur: "get2 (st_T st) y x = Inr cur" and lt: "fless tn cur"
    and set: "set2 (st_T st) y x tn = Inr T'"
    and psh: "push (nrows slowness * ncols slowness) tn y x (st\<lparr>st_T := T'\<rparr>) = Inr st'"
    by (auto simp: relax_def Let_def bindE_eq_Inr split: if_splits)
  from set obtain r c where rc: "cell_of (st_T st) y x = Some (r, c)"
    and T': "T' = (st_T st)\<lparr>elems := (elems (st_T st))(r := (elems (st_T st) r)(c := tn))\<rparr>"
    by (auto simp: set2_eq_Inr)
  from assms(2) have "cell_of (frozen st) y x = cell_of (st_T st) y x"
    by (intro cell_of_shape) (simp_all add: same_shape_def)
  with rc have rcf: "cell_of (frozen st) y x = Some (r, c)" by simp
  from fz have nf: "\<not> elems (frozen st) r c" by (simp add: get2_cell[OF rcf])
  from cur have c: "cur = elems (st_T st) r c" by (simp add: get2_cell[OF rc])
  from push_frame[OF psh] have "st_T st' = T'" "frozen st' = frozen st" by simp_all
  then show ?thesis
    using nf c lt by (auto simp: later_state_def T')
qed

lemma relax_all_later:
  "relax_all slowness dx ns st = Inr st' \<Longrightarrow> same_shape st \<Longrightarrow> later_state st st'"
proof (induction ns arbitrary: st)
  case Nil
  then show ?case by (simp add: later_state_refl)
next
  case (Cons a ns)
  obtain y x where a: "a = (y, x)" by (cases a)
  from Cons.prems obtain st1 where 1: "relax slowness dx y x st = Inr st1"
    and 2: "relax_all slowness dx ns st1 = Inr st'"
    by (auto simp: a bindE_eq_Inr)
  from later_state_trans[OF relax_later[OF 1 Cons.prems(2)]
        Cons.IH[OF 2 relax_same_shape[OF 1 Cons.prems(2)]]]
  show ?case .
qed

lemma fmm_iter_later:
  assumes "fmm_iter slowness dx st = Inr st'" and "same_shape st"
  shows "later_state st st'"
proof -
  from assms(1) obtain mt y x st1 fz where pop: "pop_min st = Inr (mt, y, x, st1)"
    and fz: "get2 (frozen st1) y x = Inr fz"
    and rest: "(if fz then Inr st1 else bindE (set2 (frozen st1) y x True)
                 (\<lambda>fr. relax_all slowness dx (neighbours y x) (st1\<lparr>frozen := fr\<rparr>))) = Inr st'"
    by (auto simp: fmm_iter_def bindE_eq_Inr)
  note fr = pop_min_frame[OF pop]
  from fr assms(2) have s1: "same_shape st1" by (simp add: same_shape_def)
  show ?thesis
  proof (cases fz)
    case True
    with rest fr show ?thesis by (auto simp: later_state_def)
  next
    case False
    with rest obtain fr' where s: "set2 (frozen st1) y x True = Inr fr'"
      and r: "relax_all slowness dx (neighbours y x) (st1\<lparr>frozen := fr'\<rparr>) = Inr st'"
      by (auto simp: bindE_eq_Inr)
    from s fr have "later_state st (st1\<lparr>frozen := fr'\<rparr>)"
      by (auto simp: later_state_def set2_eq_Inr)
    moreover from set2_shape[OF s] s1 have "same_shape (st1\<lparr>frozen := fr'\<rparr>)"
      by (simp add: same_shape_def)
    ultimately show ?thesis using later_state_trans relax_all_later[OF r] by blast
  qed
qed

lemma fmm_after_later:
  "fmm_after k slowness dx st = Inr st' \<Longrightarrow> same_shape st \<Longrightarrow> later_state st st'"
proof (induction k arbitrary: st)
  case 0
  then show ?case by (simp add: later_state_refl)
next
  case (Suc k)
  show ?case
  proof (cases "0 < hs st")
    case False
    with Suc.prems show ?thesis by (simp add: later_state_refl)
  next
    case True
    with Suc.prems obtain st1 where 1: "fmm_iter slowness dx st = Inr st1"
      and 2: "fmm_after k slowness dx st1 = Inr st'"
      by (auto simp: bindE_eq_Inr)
    from later_state_trans[OF fmm_iter_later[OF 1 Suc.prems(2)]
          Suc.IH[OF 2 fmm_iter_same_shape[OF 1 Suc.prems(2)]]]
    show ?thesis .
  qed
qed

lemma fmm_after_empty: "hs st = 0 \<Longrightarrow> fmm_after k slowness dx st = Inr st"
  by (cases k) simp_all

lemma bindE_assoc: "bindE (bindE m f) g = bindE m (\<lambda>v. bindE (f v) g)"
  by (cases m) simp_all

lemma fmm_after_add:
  "fmm_after (i + j) slowness dx st = bindE (fmm_after i slowness dx st) (fmm_after j slowness dx)"
proof (induction i arbitrary: st)
  case 0
  show ?case by simp
next
  case (Suc i)
  show ?case
  proof (cases "0 < hs st")
    case True
    have "fmm_after (i + j) slowness dx =
            (\<lambda>v. bindE (fmm_after i slowness dx v) (fmm_after j slowness dx))"
      by (rule ext) (rule Suc.IH)
    with True show ?thesis by (simp add: bindE_assoc)
  next
    case False
    then show ?thesis by (simp add: fmm_after_empty)
  qed
qed

lemma freezes_stays:
  assumes "freezes slowness dx st i r c" and "i < j" and "fmm_after j slowness dx st = Inr sj"
    and "same_shape st"
  shows "elems (frozen sj) r c"
proof -
  from assms(1) obtain si si' where si: "fmm_after i slowness dx st = Inr si" and pos: "0 < hs si"
    and it: "fmm_iter slowness dx si = Inr si'" and f: "elems (frozen si') r c"
    by (auto simp: freezes_def)
  have "fmm_after (i + 1) slowness dx st = Inr si'"
    unfolding fmm_after_add si using pos it by simp
  moreover from assms(2) have "j = (i + 1) + (j - (i + 1))" by simp
  ultimately have a: "fmm_after (j - (i + 1)) slowness dx si' = Inr sj"
    using assms(3) fmm_after_add[of "i + 1" "j - (i + 1)" slowness dx st] by simp
  have b: "same_shape si'"
    using fmm_iter_same_shape[OF it fmm_after_same_shape[OF si assms(4)]] .
  from fmm_after_later[OF a b] f show ?thesis by (simp add: later_state_def)
qed

lemma freezes_once_aux:
  assumes "freezes slowness dx st i r c" and "freezes slowness dx st j r c" and "i < j"
    and "same_shape st"
  shows False
proof -
  from assms(2) obtain sj where sj: "fmm_after j slowness dx st = Inr sj" and nf: "\<not> elems (frozen sj) r c"
    by (auto simp: freezes_def)
  from freezes_stays[OF assms(1,3) sj assms(4)] nf show False by simp
qed

lemma table2_shape [simp]:
  "nrows (table2 d rows) = length rows" "ncols (table2 d rows) = length (hd rows)"
  by (simp_all add: table2_def)

lemma elems_table2:
  "r < length rows \<Longrightarrow> c < length (rows ! r) \<Longrightarrow> elems (table2 d rows) r c = rows ! r ! c"
  by (simp add: table2_def)

lemma get2_table2:
  assumes "0 \<le> y" and "0 \<le> x" and "nat y < length rows"
    and "nat x < length (hd rows)" and "nat x < length (rows ! nat y)"
  shows "get2 (table2 d rows) y x = Inr (rows ! nat y ! nat x)"
proof -
  have "y < int (length rows)" "x < int (length (hd rows))" using assms by linarith+
  with assms show ?thesis by (simp add: get2_in_range table2_def)
qed

lemma set2_table2:
  assumes "0 \<le> y" and "0 \<le> x" and "nat y < length rows"
    and "nat x < length (hd rows)" and "nat x < length (rows ! nat y)"
  shows "set2 (table2 d rows) y x v = Inr (table2 d (rows[nat y := (rows ! nat y)[nat x := v]]))"
proof -
  have lt: "y < int (length rows)" "x < int (length (hd rows))" using assms by linarith+
  have hd: "length (hd (rows[nat y := (rows ! nat y)[nat x := v]])) = length (hd rows)"
    using assms(3) by (cases rows; cases "nat y") auto
  have "set2 (table2 d rows) y x v =
          Inr ((table2 d rows)\<lparr>elems := (elems (table2 d rows))
                 (nat y := (elems (table2 d rows) (nat y))(nat x := v))\<rparr>)"
    using assms lt by (simp add: set2_in_range)
  also have "(table2 d rows)\<lparr>elems := (elems (table2 d rows))
                 (nat y := (elems (table2 d rows) (nat y))(nat x := v))\<rparr>
             = table2 d (rows[nat y := (rows ! nat y)[nat x := v]])"
    using assms(3,5) by (auto simp: table2_def hd fun_eq_iff nth_list_update)
  finally show ?thesis .
qed

lemma sample_init:
  "fmm_init sample_field 0 0 =
     Inr (sample_state [[Fin 0, PInf], [PInf, PInf]] [[False, False], [False, False]]
            [(Fin 0, 0, 0), (PInf, 0, 0), (PInf, 0, 0), (PInf, 0, 0)] 1)"
proof -
  have "full2 2 2 PInf = table2 PInf [[PInf, PInf], [PInf, PInf]]"
    by (auto simp: full2_def table2_def fun_eq_iff nth_Cons')
  moreover have "full2 2 2 False = table2 False [[False, False], [False, False]]"
    by (auto simp: full2_def table2_def fun_eq_iff nth_Cons')
  ultimately show ?thesis
    by (simp add: fmm_init_def sample_field_def sample_state_def set2_table2 set1_def Let_def numeral_eq_Suc)
qed

lemma stencil_single: "stencil (Fin a) PInf (Fin s) (Fin d) = Fin (a + s * d)"
  "stencil PInf (Fin a) (Fin s) (Fin d) = Fin (a + s * d)"
  by (simp_all add: stencil_def order_pair_def)

lemma sample_iter1:
  "fmm_iter sample_field (Fin 1)
     (sample_state [[Fin 0, PInf], [PInf, PInf]] [[False, False], [False, False]]
            [(Fin 0, 0, 0), (PInf, 0, 0), (PInf, 0, 0), (PInf, 0, 0)] 1)
   = Inr (sample_state [[Fin 0, Fin 2], [Fin 1, PInf]] [[True, False], [False, False]]
            [(Fin 1, 1, 0), (Fin 2, 0, 1), (PInf, 0, 0), (PInf, 0, 0)] 2)"
  by (simp add: fmm_iter_def pop_min_def sample_state_def sample_field_def get1_def set1_def
        get2_table2 set2_table2 neighbours_def relax_def push_def Let_def
        solve_quadratic_def t_horiz_of_def t_vert_of_def take_min_def stencil_single)


lemma sqrt_196: "sqrt 196 = 14"
  using real_sqrt_abs[of 14] by simp

lemma stencil_sample: "stencil (Fin 1) (Fin 2) (Fin 5) (Fin 1) = Fin 5"
  by (simp add: stencil_def order_pair_def two_axis_fin quad_disc_def sqrt_196)

lemmas sample_eval =
  fmm_iter_def pop_min_def move_entry_def sample_state_def sample_field_def get1_def set1_def
  get2_table2 set2_table2 neighbours_def relax_def push_def Let_def
  solve_quadratic_def t_horiz_of_def t_vert_of_def take_min_def stencil_single stencil_sample
  upt_rec

lemma sample_iter2:
  "fmm_iter sample_field (Fin 1)
     (sample_state [[Fin 0, Fin 2], [Fin 1, PInf]] [[True, False], [False, False]]
            [(Fin 1, 1, 0), (Fin 2, 0, 1), (PInf, 0, 0), (PInf, 0, 0)] 2)
   = Inr (sample_state [[Fin 0, Fin 2], [Fin 1, Fin 5]] [[True, False], [True, False]]
            [(Fin 2, 0, 1), (Fin 5, 1, 1), (PInf, 0, 0), (PInf, 0, 0)] 2)"
  by (simp add: sample_eval)

lemma sample_iter3:
  "fmm_iter sample_field (Fin 1)
     (sample_state [[Fin 0, Fin 2], [Fin 1, Fin 5]] [[True, False], [True, False]]
            [(Fin 2, 0, 1), (Fin 5, 1, 1), (PInf, 0, 0), (PInf, 0, 0)] 2)
   = Inr (sample_state [[Fin 0, Fin 2], [Fin 1, Fin 5]] [[True, True], [True, False]]
            [(Fin 5, 1, 1), (Fin 5, 1, 1), (PInf, 0, 0), (PInf, 0, 0)] 1)"
  by (simp add: sample_eval)

lemma sample_iter4:
  "fmm_iter sample_field (Fin 1)
     (sample_state [[Fin 0, Fin 2], [Fin 1, Fin 5]] [[True, True], [True, False]]
            [(Fin 5, 1, 1), (Fin 5, 1, 1), (PInf, 0, 0), (PInf, 0, 0)] 1)
   = Inr (sample_state [[Fin 0, Fin 2], [Fin 1, Fin 5]] [[True, True], [True, True]]
            [(Fin 5, 1, 1), (Fin 5, 1, 1), (PInf, 0, 0), (PInf, 0, 0)] 0)"
  by (simp add: sample_eval)


lemma least_of_none: "least_of PInf [PInf]"
  by (simp add: least_of_def)

lemma least_of_one:
  "a \<noteq> NaN \<Longrightarrow> least_of (if fless a PInf then a else PInf) [PInf, a]"
  by (cases a) (simp_all add: least_of_def)

lemma least_of_two:
  "a \<noteq> NaN \<Longrightarrow> b \<noteq> NaN \<Longrightarrow>
   least_of (if fless b (if fless a PInf then a else PInf) then b
             else (if fless a PInf then a else PInf)) [PInf, a, b]"
  by (cases a; cases b) (auto simp: least_of_def)

lemma bindE_Inr_right [simp]: "bindE m Inr = m"
  by (cases m) simp_all

lemma fmm_after_zero: "fmm_after 0 slowness dx = Inr"
  by (rule ext) simp

lemma fmm_after_one: "0 < hs st \<Longrightarrow> fmm_after 1 slowness dx st = fmm_iter slowness dx st"
  by (simp add: fmm_after_zero)

lemma sample_after1:
  "bindE (fmm_init sample_field 0 0) (fmm_after 1 sample_field (Fin 1))
   = Inr (sample_state [[Fin 0, Fin 2], [Fin 1, PInf]] [[True, False], [False, False]]
            [(Fin 1, 1, 0), (Fin 2, 0, 1), (PInf, 0, 0), (PInf, 0, 0)] 2)"
proof -
  have "0 < hs (sample_state [[Fin 0, PInf], [PInf, PInf]] [[False, False], [False, False]]
            [(Fin 0, 0, 0), (PInf, 0, 0), (PInf, 0, 0), (PInf, 0, 0)] 1)"
    by (simp add: sample_state_def)
  then show ?thesis
    unfolding sample_init bindE_Inr by (simp only: fmm_after_one sample_iter1)
qed

lemma sample_after_iter2:
  "fmm_after 1 sample_field (Fin 1)
     (sample_state [[Fin 0, Fin 2], [Fin 1, PInf]] [[True, False], [False, False]]
            [(Fin 1, 1, 0), (Fin 2, 0, 1), (PInf, 0, 0), (PInf, 0, 0)] 2)
   = Inr (sample_state [[Fin 0, Fin 2], [Fin 1, Fin 5]] [[True, False], [True, False]]
            [(Fin 2, 0, 1), (Fin 5, 1, 1), (PInf, 0, 0), (PInf, 0, 0)] 2)"
proof -
  have "0 < hs (sample_state [[Fin 0, Fin 2], [Fin 1, PInf]] [[True, False], [False, False]]
            [(Fin 1, 1, 0), (Fin 2, 0, 1), (PInf, 0, 0), (PInf, 0, 0)] 2)"
    by (simp add: sample_state_def)
  then show ?thesis
    by (simp only: fmm_after_one sample_iter2)
qed

lemma sample_pop2:
  "pop_min (sample_state [[Fin 0, Fin 2], [Fin 1, PInf]] [[True, False], [False, False]]
            [(Fin 1, 1, 0), (Fin 2, 0, 1), (PInf, 0, 0), (PInf, 0, 0)] 2)
   = Inr (Fin 1, 1, 0,
          sample_state [[Fin 0, Fin 2], [Fin 1, PInf]] [[True, False], [False, False]]
            [(Fin 2, 0, 1), (Fin 2, 0, 1), (PInf, 0, 0), (PInf, 0, 0)] 1)"
  by (simp add: pop_min_def move_entry_def sample_state_def get1_def set1_def upt_rec)

lemma scan_min_returns:
  "\<forall>i \<in> set is. i < length ht \<Longrightarrow>
   \<exists>mi mt. scan_min ht is (m0, t0) = Inr (mi, mt) \<and> mi \<in> insert m0 (set is)"
proof (induction "is" arbitrary: m0 t0)
  case Nil
  show ?case by simp
next
  case (Cons i rest)
  then have i: "i < length ht" and r: "\<forall>j \<in> set rest. j < length ht" by simp_all
  from Cons.IH[OF r, of "fst (if fless (ht ! i) t0 then (i, ht ! i) else (m0, t0))"
        "snd (if fless (ht ! i) t0 then (i, ht ! i) else (m0, t0))"]
  show ?case using i by (auto simp: get1_def split: if_splits)
qed

lemma pop_min_returns:
  assumes wf: "wf_state slowness st" and pos: "0 < hs st"
  shows "\<exists>mt y x st1. pop_min st = Inr (mt, y, x, st1) \<and> wf_state slowness st1 \<and>
           0 \<le> y \<and> y < int (nrows slowness) \<and> 0 \<le> x \<and> x < int (ncols slowness) \<and>
           (hs st = 1 \<longrightarrow> y = heap_y st ! 0 \<and> x = heap_x st ! 0)"
proof -
  let ?N = "nrows slowness * ncols slowness"
  from wf have len: "length (heap_t st) = ?N" "length (heap_y st) = ?N" "length (heap_x st) = ?N"
    and le: "hs st \<le> ?N"
    and rng: "\<And>i. i < hs st \<Longrightarrow> 0 \<le> heap_y st ! i \<and> heap_y st ! i < int (nrows slowness) \<and>
                   0 \<le> heap_x st ! i \<and> heap_x st ! i < int (ncols slowness)"
    by (simp_all add: wf_state_def)
  from pos le have Npos: "0 < ?N" by linarith
  then have g0: "get1 (heap_t st) 0 = Inr (heap_t st ! 0)" by (simp add: get1_def len)
  have "\<forall>i \<in> set [1..<hs st]. i < length (heap_t st)" using le len by auto
  from scan_min_returns[OF this, of 0 "heap_t st ! 0"]
  obtain mi mt where sc: "scan_min (heap_t st) [1..<hs st] (0, heap_t st ! 0) = Inr (mi, mt)"
    and mi: "mi \<in> insert 0 (set [1..<hs st])" by blast
  from mi pos have mi_lt: "mi < hs st" by auto
  from mi pos have mi0: "hs st = 1 \<Longrightarrow> mi = 0" by auto
  have last: "hs st - 1 < ?N" using pos le by simp
  have mv: "move_entry st (hs st - 1) mi =
          Inr (st\<lparr>heap_t := (heap_t st)[mi := heap_t st ! (hs st - 1)],
                 heap_y := (heap_y st)[mi := heap_y st ! (hs st - 1)],
                 heap_x := (heap_x st)[mi := heap_x st ! (hs st - 1)]\<rparr>)"
    using mi_lt le last by (simp add: move_entry_def get1_def set1_def len)
  define st1 where "st1 = (if mi < hs st - 1
      then st\<lparr>heap_t := (heap_t st)[mi := heap_t st ! (hs st - 1)],
                 heap_y := (heap_y st)[mi := heap_y st ! (hs st - 1)],
                 heap_x := (heap_x st)[mi := heap_x st ! (hs st - 1)]\<rparr>
      else st)\<lparr>hs := hs st - 1\<rparr>"
  have gy: "get1 (heap_y st) mi = Inr (heap_y st ! mi)"
    and gx: "get1 (heap_x st) mi = Inr (heap_x st ! mi)"
    using mi_lt le by (simp_all add: get1_def len)
  have pm: "pop_min st = Inr (mt, heap_y st ! mi, heap_x st ! mi, st1)"
  proof (cases "mi < hs st - 1")
    case True
    show ?thesis
      unfolding pop_min_def g0 bindE_Inr sc prod.case gy gx
      by (simp only: True if_True mv bindE_Inr st1_def)
  next
    case False
    show ?thesis
      unfolding pop_min_def g0 bindE_Inr sc prod.case gy gx
      by (simp only: False if_False bindE_Inr st1_def)
  qed
  have wf1: "wf_state slowness st1"
    unfolding wf_state_def
  proof (intro conjI allI impI)
    fix i assume "i < hs st1"
    then have i: "i < hs st - 1" by (simp add: st1_def split: if_splits)
    then have "heap_y st1 ! i = heap_y st ! (if mi < hs st - 1 \<and> i = mi then hs st - 1 else i)"
      and "heap_x st1 ! i = heap_x st ! (if mi < hs st - 1 \<and> i = mi then hs st - 1 else i)"
      using le len by (auto simp: st1_def nth_list_update)
    moreover have "(if mi < hs st - 1 \<and> i = mi then hs st - 1 else i) < hs st" using i pos by auto
    ultimately show "0 \<le> heap_y st1 ! i" "heap_y st1 ! i < int (nrows slowness)"
      "0 \<le> heap_x st1 ! i" "heap_x st1 ! i < int (ncols slowness)"
      using rng by metis+
  qed (use wf le in \<open>auto simp: st1_def wf_state_def\<close>)
  from pm wf1 rng[OF mi_lt] mi0 show ?thesis by auto
qed


lemma take_min_returns:
  "(guard \<Longrightarrow> \<exists>v. rd = Inr v) \<Longrightarrow> \<exists>t. take_min guard rd cur = Inr t"
  by (auto simp: take_min_def)

lemma solve_quadratic_returns:
  assumes "nrows T = nrows slowness" and "ncols T = ncols slowness"
    and "0 \<le> y" and "y < int (nrows slowness)" and "0 \<le> x" and "x < int (ncols slowness)"
  shows "\<exists>tn. solve_quadratic T slowness y x dx (int (nrows slowness)) (int (ncols slowness)) = Inr tn"
proof -
  have s: "get2 slowness y x = Inr (elems slowness (nat y) (nat x))"
    using assms by (simp add: get2_in_range)
  have "\<exists>t. take_min (0 < x) (get2 T y (x - 1)) PInf = Inr t"
    using assms by (intro take_min_returns) (simp add: get2_in_range)
  then obtain h0 where h0: "take_min (0 < x) (get2 T y (x - 1)) PInf = Inr h0" ..
  have "\<exists>t. take_min (x < int (ncols slowness) - 1) (get2 T y (x + 1)) h0 = Inr t"
    using assms by (intro take_min_returns) (simp add: get2_in_range)
  then obtain h where h: "take_min (x < int (ncols slowness) - 1) (get2 T y (x + 1)) h0 = Inr h" ..
  have "\<exists>t. take_min (0 < y) (get2 T (y - 1) x) PInf = Inr t"
    using assms by (intro take_min_returns) (simp add: get2_in_range)
  then obtain v0 where v0: "take_min (0 < y) (get2 T (y - 1) x) PInf = Inr v0" ..
  have "\<exists>t. take_min (y < int (nrows slowness) - 1) (get2 T (y + 1) x) v0 = Inr t"
    using assms by (intro take_min_returns) (simp add: get2_in_range)
  then obtain v where v: "take_min (y < int (nrows slowness) - 1) (get2 T (y + 1) x) v0 = Inr v" ..
  show ?thesis
    by (simp add: solve_quadratic_def s t_horiz_of_def t_vert_of_def h0 h v0 v)
qed

lemma push_returns:
  assumes "wf_state slowness st"
    and "0 \<le> y" and "y < int (nrows slowness)" and "0 \<le> x" and "x < int (ncols slowness)"
  shows "\<exists>st'. push (nrows slowness * ncols slowness) tn y x st = Inr st' \<and> wf_state slowness st'"
proof (cases "hs st < nrows slowness * ncols slowness")
  case False
  with assms(1) show ?thesis by (simp add: push_def)
next
  case True
  let ?st' = "st\<lparr>heap_t := (heap_t st)[hs st := tn], heap_y := (heap_y st)[hs st := y],
                 heap_x := (heap_x st)[hs st := x], hs := hs st + 1\<rparr>"
  from assms(1) True have p: "push (nrows slowness * ncols slowness) tn y x st = Inr ?st'"
    by (simp add: push_def set1_def wf_state_def)
  have "wf_state slowness ?st'"
    using assms True by (auto simp: wf_state_def nth_list_update less_Suc_eq)
  with p show ?thesis by simp
qed

lemma relax_returns:
  assumes wf: "wf_state slowness st"
  shows "\<exists>st'. relax slowness dx y x st = Inr st' \<and> wf_state slowness st'"
proof (cases "0 \<le> y \<and> y < int (nrows slowness) \<and> 0 \<le> x \<and> x < int (ncols slowness)")
  case False
  with wf show ?thesis by (auto simp: relax_def Let_def)
next
  case True
  from wf have sh: "nrows (st_T st) = nrows slowness" "ncols (st_T st) = ncols slowness"
    "nrows (frozen st) = nrows slowness" "ncols (frozen st) = ncols slowness"
    by (simp_all add: wf_state_def)
  have fz: "get2 (frozen st) y x = Inr (elems (frozen st) (nat y) (nat x))"
    using True sh by (simp add: get2_in_range)
  have cur: "get2 (st_T st) y x = Inr (elems (st_T st) (nat y) (nat x))"
    using True sh by (simp add: get2_in_range)
  obtain tn where tn: "solve_quadratic (st_T st) slowness y x dx (int (nrows slowness)) (int (ncols slowness)) = Inr tn"
    using solve_quadratic_returns[OF sh(1,2)] True by blast
  let ?T' = "(st_T st)\<lparr>elems := (elems (st_T st))(nat y := (elems (st_T st) (nat y))(nat x := tn))\<rparr>"
  have set: "set2 (st_T st) y x tn = Inr ?T'"
    using True sh by (simp add: set2_in_range)
  have wf': "wf_state slowness (st\<lparr>st_T := ?T'\<rparr>)"
    using wf by (simp add: wf_state_def)
  from push_returns[OF wf', of y x tn] True
  obtain st' where "push (nrows slowness * ncols slowness) tn y x (st\<lparr>st_T := ?T'\<rparr>) = Inr st'"
    and "wf_state slowness st'" by blast
  then show ?thesis
    using True wf by (auto simp: relax_def Let_def fz tn cur set)
qed

lemma relax_all_returns:
  "wf_state slowness st \<Longrightarrow>
   \<exists>st'. relax_all slowness dx ns st = Inr st' \<and> wf_state slowness st'"
proof (induction ns arbitrary: st)
  case Nil
  then show ?case by simp
next
  case (Cons a ns)
  obtain y x where a: "a = (y, x)" by (cases a)
  from relax_returns[OF Cons.prems, of dx y x]
  obtain st1 where 1: "relax slowness dx y x st = Inr st1" and w: "wf_state slowness st1" by blast
  from Cons.IH[OF w] 1 show ?case by (simp add: a)
qed

lemma fmm_iter_returns:
  assumes wf: "wf_state slowness st" and pos: "0 < hs st"
  shows "\<exists>st'. fmm_iter slowness dx st = Inr st' \<and> wf_state slowness st'"
proof -
  from pop_min_returns[OF wf pos]
  obtain mt y x st1 where pop: "pop_min st = Inr (mt, y, x, st1)" and wf1: "wf_state slowness st1"
    and rng: "0 \<le> y" "y < int (nrows slowness)" "0 \<le> x" "x < int (ncols slowness)"
    by blast
  from wf1 have sh: "nrows (frozen st1) = nrows slowness" "ncols (frozen st1) = ncols slowness"
    by (simp_all add: wf_state_def)
  have fz: "get2 (frozen st1) y x = Inr (elems (frozen st1) (nat y) (nat x))"
    using rng sh by (simp add: get2_in_range)
  let ?fr = "(frozen st1)\<lparr>elems := (elems (frozen st1))(nat y := (elems (frozen st1) (nat y))(nat x := True))\<rparr>"
  have set: "set2 (frozen st1) y x True = Inr ?fr"
    using rng sh by (simp add: set2_in_range)
  have "wf_state slowness (st1\<lparr>frozen := ?fr\<rparr>)"
    using wf1 by (simp add: wf_state_def)
  from relax_all_returns[OF this, of dx "neighbours y x"] wf1
  show ?thesis by (auto simp: fmm_iter_def pop fz set)
qed

lemma fmm_loop_invariant:
  "(\<And>s. P s \<Longrightarrow> 0 < hs s \<Longrightarrow> \<exists>s'. fmm_iter slowness dx s = Inr s' \<and> P s') \<Longrightarrow>
   P st \<Longrightarrow> \<exists>stf. fmm_loop slowness dx st = Inr stf \<and> P stf \<and> hs stf = 0"
proof (induction slowness dx st rule: fmm_loop.induct)
  case (1 slowness dx st)
  show ?case
  proof (cases "0 < hs st")
    case False
    with "1.prems" show ?thesis by (simp add: fmm_loop_done)
  next
    case True
    from "1.prems"(1)[OF "1.prems"(2) True] obtain st' where it: "fmm_iter slowness dx st = Inr st'"
      and P: "P st'" by blast
    from "1.IH"[OF True it "1.prems"(1) P] fmm_loop_step[OF True it] show ?thesis by simp
  qed
qed


lemma wf_same_shape: "wf_state slowness st \<Longrightarrow> same_shape st"
  by (simp add: wf_state_def same_shape_def)

lemma fmm_iter_unfold:
  assumes wf: "wf_state slowness st" and pos: "0 < hs st"
  obtains mt y x st1 where "pop_min st = Inr (mt, y, x, st1)"
    and "0 \<le> y" "y < int (nrows slowness)" "0 \<le> x" "x < int (ncols slowness)"
    and "hs st = 1 \<Longrightarrow> y = heap_y st ! 0 \<and> x = heap_x st ! 0"
    and "st_T st1 = st_T st" "frozen st1 = frozen st"
    and "fmm_iter slowness dx st =
           (if elems (frozen st) (nat y) (nat x) then Inr st1
            else relax_all slowness dx (neighbours y x)
                   (st1\<lparr>frozen := (frozen st)\<lparr>elems := (elems (frozen st))
                      (nat y := (elems (frozen st) (nat y))(nat x := True))\<rparr>\<rparr>))"
proof -
  from pop_min_returns[OF wf pos]
  obtain mt y x st1 where pop: "pop_min st = Inr (mt, y, x, st1)" and wf1: "wf_state slowness st1"
    and rng: "0 \<le> y" "y < int (nrows slowness)" "0 \<le> x" "x < int (ncols slowness)"
    and one: "hs st = 1 \<longrightarrow> y = heap_y st ! 0 \<and> x = heap_x st ! 0"
    by blast
  note fr = pop_min_frame[OF pop]
  from wf1 have sh: "nrows (frozen st1) = nrows slowness" "ncols (frozen st1) = ncols slowness"
    by (simp_all add: wf_state_def)
  have fz: "get2 (frozen st1) y x = Inr (elems (frozen st) (nat y) (nat x))"
    using rng sh fr by (simp add: get2_in_range)
  have set: "set2 (frozen st1) y x True =
      Inr ((frozen st)\<lparr>elems := (elems (frozen st))(nat y := (elems (frozen st) (nat y))(nat x := True))\<rparr>)"
    using rng sh fr by (simp add: set2_in_range)
  have "fmm_iter slowness dx st =
           (if elems (frozen st) (nat y) (nat x) then Inr st1
            else relax_all slowness dx (neighbours y x)
                   (st1\<lparr>frozen := (frozen st)\<lparr>elems := (elems (frozen st))
                      (nat y := (elems (frozen st) (nat y))(nat x := True))\<rparr>\<rparr>))"
    by (simp add: fmm_iter_def pop fz set)
  with pop rng one fr show ?thesis using that by blast
qed

lemma fmm_iter_src:
  assumes it: "fmm_iter slowness dx st = Inr st'"
    and wf: "wf_state slowness st" and pos: "0 < hs st"
    and src: "src_inv sy sx st" and rng: "0 \<le> sy" "0 \<le> sx"
  shows "src_inv sy sx st'"
proof (cases "elems (frozen st) (nat sy) (nat sx)")
  case True
  from fmm_iter_later[OF it wf_same_shape[OF wf]] True
  have "elems (frozen st') (nat sy) (nat sx)"
    and "elems (st_T st') (nat sy) (nat sx) = elems (st_T st) (nat sy) (nat sx)"
    unfolding later_state_def by blast+
  with src show ?thesis by (simp add: src_inv_def)
next
  case False
  with src have one: "hs st = 1" and hy: "heap_y st ! 0 = sy" and hx: "heap_x st ! 0 = sx"
    and t0: "elems (st_T st) (nat sy) (nat sx) = Fin 0"
    by (simp_all add: src_inv_def)
  obtain mt y x st1 where yx: "hs st = 1 \<Longrightarrow> y = heap_y st ! 0 \<and> x = heap_x st ! 0"
    and T1: "st_T st1 = st_T st"
    and unf: "fmm_iter slowness dx st =
           (if elems (frozen st) (nat y) (nat x) then Inr st1
            else relax_all slowness dx (neighbours y x)
                   (st1\<lparr>frozen := (frozen st)\<lparr>elems := (elems (frozen st))
                      (nat y := (elems (frozen st) (nat y))(nat x := True))\<rparr>\<rparr>))"
    by (rule fmm_iter_unfold[OF wf pos, of dx]) blast
  from pop_min_returns[OF wf pos] T1 wf have sh1: "nrows (st_T st1) = nrows (frozen st)"
    "ncols (st_T st1) = ncols (frozen st)" by (simp_all add: wf_state_def)
  from yx[OF one] hy hx have y: "y = sy" and x: "x = sx" by simp_all
  let ?mid = "st1\<lparr>frozen := (frozen st)\<lparr>elems := (elems (frozen st))
                      (nat sy := (elems (frozen st) (nat sy))(nat sx := True))\<rparr>\<rparr>"
  from unf it False have r: "relax_all slowness dx (neighbours sy sx) ?mid = Inr st'"
    by (simp add: y x)
  have "same_shape ?mid" using sh1 by (simp add: same_shape_def)
  from relax_all_later[OF r this] have "later_state ?mid st'" .
  moreover have "elems (frozen ?mid) (nat sy) (nat sx)" by simp
  ultimately have "elems (frozen st') (nat sy) (nat sx)"
    and "elems (st_T st') (nat sy) (nat sx) = elems (st_T ?mid) (nat sy) (nat sx)"
    unfolding later_state_def by blast+
  with t0 T1 show ?thesis by (simp add: src_inv_def)
qed

lemma relax_changes:
  assumes "relax slowness dx y x st = Inr st'"
    and "elems (st_T st') r c \<noteq> elems (st_T st) r c"
    and "nrows (st_T st) = nrows slowness" and "ncols (st_T st) = ncols slowness"
  shows "0 \<le> y \<and> 0 \<le> x \<and> r = nat y \<and> c = nat x"
proof -
  from assms have ne: "st' \<noteq> st" by auto
  with assms(1) obtain tn T' where rng: "0 \<le> y" "0 \<le> x"
    and rng2: "y < int (nrows slowness)" "x < int (ncols slowness)"
    and set: "set2 (st_T st) y x tn = Inr T'"
    and psh: "push (nrows slowness * ncols slowness) tn y x (st\<lparr>st_T := T'\<rparr>) = Inr st'"
    by (auto simp: relax_def Let_def bindE_eq_Inr split: if_splits)
  from set rng rng2 assms(3,4)
  have T': "T' = (st_T st)\<lparr>elems := (elems (st_T st))(nat y := (elems (st_T st) (nat y))(nat x := tn))\<rparr>"
    by (simp add: set2_in_range)
  from push_frame[OF psh] have "st_T st' = T'" by simp
  with assms(2) rng show ?thesis by (auto simp: T' split: if_splits)
qed

lemma relax_all_changes:
  "relax_all slowness dx ns st = Inr st' \<Longrightarrow>
   elems (st_T st') r c \<noteq> elems (st_T st) r c \<Longrightarrow>
   nrows (st_T st) = nrows slowness \<Longrightarrow> ncols (st_T st) = ncols slowness \<Longrightarrow>
   \<exists>(y, x) \<in> set ns. 0 \<le> y \<and> 0 \<le> x \<and> r = nat y \<and> c = nat x"
proof (induction ns arbitrary: st)
  case Nil
  then show ?case by simp
next
  case (Cons a ns)
  obtain y x where a: "a = (y, x)" by (cases a)
  from Cons.prems(1) obtain st1 where 1: "relax slowness dx y x st = Inr st1"
    and 2: "relax_all slowness dx ns st1 = Inr st'"
    by (auto simp: a bindE_eq_Inr)
  show ?case
  proof (cases "elems (st_T st') r c = elems (st_T st1) r c")
    case True
    with Cons.prems(2) have "elems (st_T st1) r c \<noteq> elems (st_T st) r c" by simp
    from relax_changes[OF 1 this Cons.prems(3,4)] show ?thesis by (simp add: a)
  next
    case False
    from relax_shape[OF 1] Cons.prems(3,4)
    have "nrows (st_T st1) = nrows slowness" "ncols (st_T st1) = ncols slowness" by simp_all
    from Cons.IH[OF 2 False this] show ?thesis by auto
  qed
qed

lemma neighbours_near:
  assumes "(y2, x2) \<in> set (neighbours y x)" and "0 \<le> y2" and "0 \<le> x2"
    and "0 \<le> y" and "y < int (nrows fr)" and "0 \<le> x" and "x < int (ncols fr)"
    and "elems fr (nat y) (nat x)"
  shows "near_frozen fr (nat y2) (nat x2)"
proof -
  have lt: "nat y < nrows fr" "nat x < ncols fr" using assms(4-7) by linarith+
  from assms(1) consider "y2 = y - 1" "x2 = x" | "y2 = y + 1" "x2 = x"
    | "y2 = y" "x2 = x - 1" | "y2 = y" "x2 = x + 1"
    by (auto simp: neighbours_def)
  then show ?thesis
  proof cases
    case 1
    then have "nat y2 + 1 = nat y" using assms(2) by simp
    with 1 assms lt show ?thesis by (simp add: near_frozen_def)
  next
    case 2
    then have "nat y2 - 1 = nat y" "0 < nat y2" using assms(4) by simp_all
    with 2 assms lt show ?thesis by (simp add: near_frozen_def)
  next
    case 3
    then have "nat x2 + 1 = nat x" using assms(3) by simp
    with 3 assms lt show ?thesis by (simp add: near_frozen_def)
  next
    case 4
    then have "nat x2 - 1 = nat x" "0 < nat x2" using assms(6) by simp_all
    with 4 assms lt show ?thesis by (simp add: near_frozen_def)
  qed
qed

lemma near_frozen_mono:
  assumes "near_frozen fr r c" and "nrows fr' = nrows fr" and "ncols fr' = ncols fr"
    and "\<And>r c. elems fr r c \<Longrightarrow> elems fr' r c"
  shows "near_frozen fr' r c"
  using assms unfolding near_frozen_def by metis


lemma fmm_iter_reach:
  assumes it: "fmm_iter slowness dx st = Inr st'"
    and wf: "wf_state slowness st" and pos: "0 < hs st"
    and inv: "reach_inv sy sx st"
  shows "reach_inv sy sx st'"
proof -
  from wf have sh: "nrows (frozen st) = nrows slowness" "ncols (frozen st) = ncols slowness"
    by (simp_all add: wf_state_def)
  obtain mt y x st1 where rng: "0 \<le> y" "y < int (nrows slowness)" "0 \<le> x" "x < int (ncols slowness)"
    and T1: "st_T st1 = st_T st" and F1: "frozen st1 = frozen st"
    and unf: "fmm_iter slowness dx st =
           (if elems (frozen st) (nat y) (nat x) then Inr st1
            else relax_all slowness dx (neighbours y x)
                   (st1\<lparr>frozen := (frozen st)\<lparr>elems := (elems (frozen st))
                      (nat y := (elems (frozen st) (nat y))(nat x := True))\<rparr>\<rparr>))"
    by (rule fmm_iter_unfold[OF wf pos, of dx]) blast
  show ?thesis
  proof (cases "elems (frozen st) (nat y) (nat x)")
    case True
    with unf it have "st' = st1" by simp
    with inv T1 F1 show ?thesis by (simp add: reach_inv_def)
  next
    case False
    let ?fr = "(frozen st)\<lparr>elems := (elems (frozen st))
                      (nat y := (elems (frozen st) (nat y))(nat x := True))\<rparr>"
    from unf it False have r: "relax_all slowness dx (neighbours y x) (st1\<lparr>frozen := ?fr\<rparr>) = Inr st'"
      by simp
    from relax_all_frozen[OF r] have F': "frozen st' = ?fr" by simp
    have mono: "near_frozen ?fr r c" if "near_frozen (frozen st) r c" for r c
      by (rule near_frozen_mono[OF that]) auto
    show ?thesis
      unfolding reach_inv_def
    proof (intro allI impI)
      fix r c assume ne: "elems (st_T st') r c \<noteq> PInf"
      show "(r = nat sy \<and> c = nat sx) \<or> near_frozen (frozen st') r c"
      proof (cases "elems (st_T st') r c = elems (st_T st) r c")
        case True
        with ne inv have "(r = nat sy \<and> c = nat sx) \<or> near_frozen (frozen st) r c"
          by (simp add: reach_inv_def)
        with mono F' show ?thesis by auto
      next
        case False
        then have "elems (st_T st') r c \<noteq> elems (st_T (st1\<lparr>frozen := ?fr\<rparr>)) r c"
          by (simp add: T1)
        moreover from wf T1 have "nrows (st_T (st1\<lparr>frozen := ?fr\<rparr>)) = nrows slowness"
          "ncols (st_T (st1\<lparr>frozen := ?fr\<rparr>)) = ncols slowness"
          by (simp_all add: wf_state_def)
        ultimately have "\<exists>(y2, x2) \<in> set (neighbours y x). 0 \<le> y2 \<and> 0 \<le> x2 \<and> r = nat y2 \<and> c = nat x2"
          by (rule relax_all_changes[OF r])
        then obtain y2 x2 where m: "(y2, x2) \<in> set (neighbours y x)" and p: "0 \<le> y2" "0 \<le> x2"
          and rc: "r = nat y2" "c = nat x2" by auto
        have "near_frozen ?fr (nat y2) (nat x2)"
          by (rule neighbours_near[OF m p rng(1) _ rng(3)]) (use rng sh in simp_all)
        with F' rc show ?thesis by simp
      qed
    qed
  qed
qed

lemma fmm_init_in_range:
  assumes "0 \<le> sy" and "sy < int (nrows slowness)" and "0 \<le> sx" and "sx < int (ncols slowness)"
  shows "\<exists>st0. fmm_init slowness sy sx = Inr st0 \<and> wf_state slowness st0 \<and>
           src_inv sy sx st0 \<and> reach_inv sy sx st0"
proof -
  let ?ny = "nrows slowness" and ?nx = "ncols slowness"
  have pos: "0 < ?ny * ?nx" using assms by simp
  let ?T0 = "(full2 ?ny ?nx PInf)\<lparr>elems := (elems (full2 ?ny ?nx PInf))
                (nat sy := (elems (full2 ?ny ?nx PInf) (nat sy))(nat sx := Fin 0))\<rparr>"
  let ?st0 = "\<lparr>st_T = ?T0, frozen = full2 ?ny ?nx False,
           heap_t = (replicate (?ny * ?nx) PInf)[0 := Fin 0],
           heap_y = (replicate (?ny * ?nx) 0)[0 := sy],
           heap_x = (replicate (?ny * ?nx) 0)[0 := sx], hs = 1\<rparr>"
  have s2: "set2 (full2 ?ny ?nx PInf) sy sx (Fin 0) = Inr ?T0"
    using assms by (simp add: set2_in_range full2_def)
  have i: "fmm_init slowness sy sx = Inr ?st0"
    using pos by (simp add: fmm_init_def Let_def s2 set1_def)
  have w: "wf_state slowness ?st0"
    using pos assms by (simp add: wf_state_def full2_def)
  have s: "src_inv sy sx ?st0"
    using pos by (simp add: src_inv_def full2_def)
  have r: "reach_inv sy sx ?st0"
    by (auto simp: reach_inv_def full2_def split: if_splits)
  from i w s r show ?thesis by blast
qed

lemma cell_of_wrapped:
  assumes "- int (nrows a) \<le> y" and "y < int (nrows a)"
    and "- int (ncols a) \<le> x" and "x < int (ncols a)"
  shows "cell_of a y x = Some (nat (wraparound (nrows a) y), nat (wraparound (ncols a) x))"
proof -
  let ?y = "wraparound (nrows a) y" and ?x = "wraparound (ncols a) x"
  have r: "0 \<le> ?y" "?y < int (nrows a)" "0 \<le> ?x" "?x < int (ncols a)"
    using assms by (simp_all add: wraparound_def)
  then have "wraparound (nrows a) ?y = ?y" "wraparound (ncols a) ?x = ?x"
    by (simp_all add: wraparound_def)
  then have "cell_of a y x = cell_of a ?y ?x"
    by (simp add: cell_of_def offset2_def Let_def)
  with cell_of_in_range[OF r] show ?thesis by simp
qed

lemma fmm_first_iteration:
  assumes cell: "cell_of slowness sy sx = Some (r, c)"
  shows "\<exists>st0 st1. fmm_init slowness sy sx = Inr st0 \<and> hs st0 = 1 \<and>
           fmm_iter slowness dx st0 = Inr st1 \<and>
           wf_state slowness st1 \<and> src_inv (int r) (int c) st1"
proof -
  let ?ny = "nrows slowness" and ?nx = "ncols slowness"
  from cell_of_less[OF cell] have rc: "r < ?ny" "c < ?nx" .
  then have pos: "0 < ?ny * ?nx" by simp
  have cT: "cell_of (full2 ?ny ?nx PInf) sy sx = Some (r, c)"
    using cell cell_of_shape[of "full2 ?ny ?nx PInf" slowness sy sx] by (simp add: full2_def)
  have cF: "cell_of (full2 ?ny ?nx False) sy sx = Some (r, c)"
    using cell cell_of_shape[of "full2 ?ny ?nx False" slowness sy sx] by (simp add: full2_def)
  let ?T0 = "(full2 ?ny ?nx PInf)\<lparr>elems := (elems (full2 ?ny ?nx PInf))
                (r := (elems (full2 ?ny ?nx PInf) r)(c := Fin 0))\<rparr>"
  let ?ht = "(replicate (?ny * ?nx) PInf)[0 := Fin 0]"
  let ?hy = "(replicate (?ny * ?nx) 0)[0 := sy]"
  let ?hx = "(replicate (?ny * ?nx) 0)[0 := sx]"
  let ?st0 = "\<lparr>st_T = ?T0, frozen = full2 ?ny ?nx False,
           heap_t = ?ht, heap_y = ?hy, heap_x = ?hx, hs = 1\<rparr>"
  let ?fr = "(full2 ?ny ?nx False)\<lparr>elems := (elems (full2 ?ny ?nx False))
                (r := (elems (full2 ?ny ?nx False) r)(c := True))\<rparr>"
  let ?mid = "\<lparr>st_T = ?T0, frozen = ?fr, heap_t = ?ht, heap_y = ?hy, heap_x = ?hx, hs = 0\<rparr>"
  have s2: "set2 (full2 ?ny ?nx PInf) sy sx (Fin 0) = Inr ?T0"
    by (simp add: set2_def cT)
  have i: "fmm_init slowness sy sx = Inr ?st0"
    using pos by (simp add: fmm_init_def Let_def s2 set1_def)
  have pop: "pop_min ?st0 = Inr (Fin 0, sy, sx, ?st0\<lparr>hs := 0\<rparr>)"
    using pos by (simp add: pop_min_def get1_def)
  have "get2 (full2 ?ny ?nx False) sy sx = Inr (elems (full2 ?ny ?nx False) r c)"
    by (rule get2_cell[OF cF])
  then have g: "get2 (full2 ?ny ?nx False) sy sx = Inr False"
    by (simp add: full2_def)
  have s: "set2 (full2 ?ny ?nx False) sy sx True = Inr ?fr"
    by (simp add: set2_def cF)
  have it: "fmm_iter slowness dx ?st0 = relax_all slowness dx (neighbours sy sx) ?mid"
    unfolding fmm_iter_def pop bindE_Inr by (simp add: g s)
  have wf: "wf_state slowness ?mid"
    using pos by (simp add: wf_state_def full2_def)
  from relax_all_returns[OF wf, of dx "neighbours sy sx"]
  obtain st1 where r1: "relax_all slowness dx (neighbours sy sx) ?mid = Inr st1"
    and wf1: "wf_state slowness st1" by blast
  have "same_shape ?mid" by (simp add: same_shape_def full2_def)
  from relax_all_later[OF r1 this] have "later_state ?mid st1" .
  moreover have "elems (frozen ?mid) r c" by simp
  ultimately have "elems (frozen st1) r c" and "elems (st_T st1) r c = elems (st_T ?mid) r c"
    unfolding later_state_def by blast+
  then have "src_inv (int r) (int c) st1" by (simp add: src_inv_def)
  with i it r1 wf1 show ?thesis by (intro exI[of _ ?st0] exI[of _ st1]) simp
qed

lemma solve_eikonal_cell:
  assumes cell: "cell_of slowness sy sx = Some (r, c)"
  shows "\<exists>T. solve_eikonal slowness (sy, sx) dx = Inr T \<and>
           nrows T = nrows slowness \<and> ncols T = ncols slowness \<and> elems T r c = Fin 0"
proof -
  from fmm_first_iteration[OF cell, of dx] obtain st0 st1
    where i: "fmm_init slowness sy sx = Inr st0" and h: "hs st0 = 1"
      and it: "fmm_iter slowness dx st0 = Inr st1"
      and inv1: "wf_state slowness st1 \<and> src_inv (int r) (int c) st1" by blast
  have step: "\<exists>s'. fmm_iter slowness dx s = Inr s' \<and>
                (wf_state slowness s' \<and> src_inv (int r) (int c) s')"
    if "wf_state slowness s \<and> src_inv (int r) (int c) s" and "0 < hs s" for s
  proof -
    from that have wf: "wf_state slowness s" by simp
    from fmm_iter_returns[OF wf that(2), of dx] obtain s' where it: "fmm_iter slowness dx s = Inr s'"
      and wf': "wf_state slowness s'" by blast
    from fmm_iter_src[OF it wf that(2), of "int r" "int c"] that(1) have "src_inv (int r) (int c) s'"
      by simp
    with it wf' show ?thesis by blast
  qed
  from fmm_loop_invariant[of "\<lambda>s. wf_state slowness s \<and> src_inv (int r) (int c) s", OF step inv1]
  obtain stf where l: "fmm_loop slowness dx st1 = Inr stf"
    and wf: "wf_state slowness stf" and s: "src_inv (int r) (int c) stf" by blast
  from h have "0 < hs st0" by simp
  from fmm_loop_step[OF this it] l have "fmm_loop slowness dx st0 = Inr stf" by simp
  then have "solve_eikonal slowness (sy, sx) dx = Inr (st_T stf)"
    by (simp add: solve_eikonal_def fmm_core_def i)
  with wf s show ?thesis by (simp add: wf_state_def src_inv_def)
qed

text \<open>
  C10. The path that \<open>trace_ray\<close> returns is not empty and its first point is the target as
  given, whatever the target is: nothing clamps it or checks it against the grid.
\<close>

theorem trace_ray_first_point:
  assumes "trace_ray T target source step = Inr path"
  shows "path \<noteq> [] \<and> hd path = target"
proof -
  from assms obtain ys xs where c: "trace_core T (fst target) (snd target) (fst source) (snd source) step 30000 = Inr (ys, xs)"
    and path: "path = zip ys xs"
    by (auto simp: trace_ray_def bindE_eq_Inr)
  note f = trace_core_path[OF c]
  from f(1,3) have ne: "ys \<noteq> []" "xs \<noteq> []" by auto
  then have "hd (zip ys xs) = (ys ! 0, xs ! 0)"
    by (cases ys; cases xs) simp_all
  with ne f(4,5) path show ?thesis by simp
qed

theorem trace_ray_first_point_witness:
  "trace_ray flat_field (Fin 5, Fin 5) (Fin 0, Fin 0) (Fin (1 / 2)) = Inr [(Fin 5, Fin 5)] \<and>
   [(Fin 5, Fin 5)] \<noteq> [] \<and> hd [(Fin 5, Fin 5)] = (Fin 5 :: f64, Fin 5 :: f64)"
  using trace_ray_first_point[OF trace_ray_flat] trace_ray_flat by simp

text \<open>
  C2, as the code has it. For a cell inside the grid, \<open>t_horiz\<close> is the least of \<open>+\<infinity>\<close> and the
  times stored at its horizontal neighbours inside the grid, and \<open>t_vert\<close> the same over
  its vertical neighbours, whether those neighbours are frozen or not: the stencil never
  reads the frozen markers. (Stored times are never NaN in a run; the theorem asks for
  that of the neighbours.)
\<close>

theorem axis_minima_all_neighbours:
  assumes "0 \<le> y" and "y < int (nrows T)" and "0 \<le> x" and "x < int (ncols T)"
    and "\<forall>v \<in> set (horiz_times T y x @ vert_times T y x). v \<noteq> NaN"
  shows "\<exists>t_horiz t_vert.
           t_horiz_of T y x (int (ncols T)) = Inr t_horiz \<and>
           t_vert_of T y x (int (nrows T)) = Inr t_vert \<and>
           least_of t_horiz (PInf # horiz_times T y x) \<and>
           least_of t_vert (PInf # vert_times T y x)"
proof -
  have l: "get2 T y (x - 1) = Inr (elems T (nat y) (nat (x - 1)))" if "0 < x"
    using assms(1-4) that by (simp add: get2_in_range)
  have r: "get2 T y (x + 1) = Inr (elems T (nat y) (nat (x + 1)))" if "x < int (ncols T) - 1"
    using assms(1-4) that by (simp add: get2_in_range)
  have u: "get2 T (y - 1) x = Inr (elems T (nat (y - 1)) (nat x))" if "0 < y"
    using assms(1-4) that by (simp add: get2_in_range)
  have d: "get2 T (y + 1) x = Inr (elems T (nat (y + 1)) (nat x))" if "y < int (nrows T) - 1"
    using assms(1-4) that by (simp add: get2_in_range)
  have nan: "0 < x \<Longrightarrow> elems T (nat y) (nat (x - 1)) \<noteq> NaN"
    "x < int (ncols T) - 1 \<Longrightarrow> elems T (nat y) (nat (x + 1)) \<noteq> NaN"
    "0 < y \<Longrightarrow> elems T (nat (y - 1)) (nat x) \<noteq> NaN"
    "y < int (nrows T) - 1 \<Longrightarrow> elems T (nat (y + 1)) (nat x) \<noteq> NaN"
    using assms(5) by (auto simp: horiz_times_def vert_times_def)
  have h: "\<exists>t. t_horiz_of T y x (int (ncols T)) = Inr t \<and> least_of t (PInf # horiz_times T y x)"
    using nan(1,2) least_of_one least_of_two
    by (cases "0 < x"; cases "x < int (ncols T) - 1")
       (simp_all add: t_horiz_of_def take_min_def l r horiz_times_def least_of_none)
  have v: "\<exists>t. t_vert_of T y x (int (nrows T)) = Inr t \<and> least_of t (PInf # vert_times T y x)"
    using nan(3,4) least_of_one least_of_two
    by (cases "0 < y"; cases "y < int (nrows T) - 1")
       (simp_all add: t_vert_of_def take_min_def u d vert_times_def least_of_none)
  from h v show ?thesis by blast
qed


theorem axis_minima_all_neighbours_witness:
  "(0::int) \<le> 1 \<and> (1::int) < int (nrows (table2 PInf [[Fin 0, Fin 2], [Fin 1, PInf]])) \<and>
   (\<exists>t_horiz t_vert.
      t_horiz_of (table2 PInf [[Fin 0, Fin 2], [Fin 1, PInf]]) 1 1 2 = Inr t_horiz \<and>
      t_vert_of (table2 PInf [[Fin 0, Fin 2], [Fin 1, PInf]]) 1 1 2 = Inr t_vert \<and>
      least_of t_horiz [PInf, Fin 1] \<and> least_of t_vert [PInf, Fin 2])"
  using axis_minima_all_neighbours[of 1 "table2 PInf [[Fin 0, Fin 2], [Fin 1, PInf]]" 1]
  by (simp add: horiz_times_def vert_times_def elems_table2)

text \<open>
  The claim as written fails in the second iteration on the sample field, source \<open>(0, 0)\<close>,
  spacing 1. The iteration pops and freezes the cell \<open>(1, 0)\<close> and updates its neighbour
  \<open>(1, 1)\<close>, whose only vertical neighbour \<open>(0, 1)\<close> is not frozen and holds the tentative
  time 2: the code takes \<open>t_vert = 2\<close>, the minimum over frozen neighbours is \<open>+\<infinity>\<close>.
\<close>

theorem frozen_only_minima_counterexample:
  "bindE (fmm_init sample_field 0 0) (fmm_after 1 sample_field (Fin 1))
     = Inr (sample_state [[Fin 0, Fin 2], [Fin 1, PInf]] [[True, False], [False, False]]
              [(Fin 1, 1, 0), (Fin 2, 0, 1), (PInf, 0, 0), (PInf, 0, 0)] 2) \<and>
   pop_min (sample_state [[Fin 0, Fin 2], [Fin 1, PInf]] [[True, False], [False, False]]
              [(Fin 1, 1, 0), (Fin 2, 0, 1), (PInf, 0, 0), (PInf, 0, 0)] 2)
     = Inr (Fin 1, 1, 0,
            sample_state [[Fin 0, Fin 2], [Fin 1, PInf]] [[True, False], [False, False]]
              [(Fin 2, 0, 1), (Fin 2, 0, 1), (PInf, 0, 0), (PInf, 0, 0)] 1) \<and>
   set2 (table2 False [[True, False], [False, False]]) 1 0 True
     = Inr (table2 False [[True, False], [True, False]]) \<and>
   (1, 1) \<in> set (neighbours 1 0) \<and>
   get2 (table2 False [[True, False], [True, False]]) 0 1 = Inr False \<and>
   t_vert_of (table2 PInf [[Fin 0, Fin 2], [Fin 1, PInf]]) 1 1 2 = Inr (Fin 2) \<and>
   t_vert_frozen (table2 PInf [[Fin 0, Fin 2], [Fin 1, PInf]])
     (table2 False [[True, False], [True, False]]) 1 1 2 = Inr PInf"
proof -
  have "set2 (table2 False [[True, False], [False, False]]) 1 0 True
     = Inr (table2 False [[True, False], [True, False]])"
    by (simp add: set2_table2)
  moreover have "(1, 1) \<in> set (neighbours 1 0)"
    by (simp add: neighbours_def)
  moreover have "get2 (table2 False [[True, False], [True, False]]) 0 1 = Inr False"
    by (simp add: get2_table2)
  moreover have "t_vert_of (table2 PInf [[Fin 0, Fin 2], [Fin 1, PInf]]) 1 1 2 = Inr (Fin 2)"
    by (simp add: t_vert_of_def take_min_def get2_table2)
  moreover have "t_vert_frozen (table2 PInf [[Fin 0, Fin 2], [Fin 1, PInf]])
     (table2 False [[True, False], [True, False]]) 1 1 2 = Inr PInf"
    by (simp add: t_vert_frozen_def take_min_frozen_def get2_table2)
  ultimately show ?thesis
    using sample_after1 sample_pop2 by (simp only: simp_thms)
qed

text \<open>
  C4. From any state of a run to any later state of it, \<open>k\<close> iterations on: the arrival
  time of a cell is unchanged or strictly smaller; a frozen cell is still frozen and its
  arrival time is the same; and counted from any state, no cell is frozen in two
  different iterations. The arrival times and the frozen markers of the state have one
  shape, as lines 29 and 30 make them: the accesses being unchecked, one index would
  otherwise mean different cells in the two arrays.
\<close>

theorem arrival_times_only_decrease:
  assumes "fmm_after k slowness dx st = Inr st'"
    and "nrows (st_T st) = nrows (frozen st)" and "ncols (st_T st) = ncols (frozen st)"
  shows "(\<forall>r c. elems (st_T st') r c = elems (st_T st) r c \<or>
                fless (elems (st_T st') r c) (elems (st_T st) r c)) \<and>
         (\<forall>r c. elems (frozen st) r c \<longrightarrow>
                elems (frozen st') r c \<and> elems (st_T st') r c = elems (st_T st) r c) \<and>
         (\<forall>i j r c. freezes slowness dx st i r c \<and> freezes slowness dx st j r c \<longrightarrow> i = j)"
proof -
  from assms(2,3) have sh: "same_shape st" by (simp add: same_shape_def)
  from fmm_after_later[OF assms(1) sh] have l: "later_state st st'" .
  have "i = j" if "freezes slowness dx st i r c" "freezes slowness dx st j r c" for i j r c
    using freezes_once_aux[of slowness dx st i r c j] freezes_once_aux[of slowness dx st j r c i] that sh
    by (cases i j rule: linorder_cases) auto
  with l show ?thesis unfolding later_state_def by blast
qed

theorem arrival_times_only_decrease_witness:
  "fmm_after 1 sample_field (Fin 1)
     (sample_state [[Fin 0, Fin 2], [Fin 1, PInf]] [[True, False], [False, False]]
            [(Fin 1, 1, 0), (Fin 2, 0, 1), (PInf, 0, 0), (PInf, 0, 0)] 2)
   = Inr (sample_state [[Fin 0, Fin 2], [Fin 1, Fin 5]] [[True, False], [True, False]]
            [(Fin 2, 0, 1), (Fin 5, 1, 1), (PInf, 0, 0), (PInf, 0, 0)] 2) \<and>
   fless (elems (table2 PInf [[Fin 0, Fin 2], [Fin 1, Fin 5]]) 1 1)
         (elems (table2 PInf [[Fin 0, Fin 2], [Fin 1, PInf]]) 1 1) \<and>
   elems (table2 False [[True, False], [True, False]]) 0 0 \<and>
   elems (table2 PInf [[Fin 0, Fin 2], [Fin 1, Fin 5]]) 0 0
     = elems (table2 PInf [[Fin 0, Fin 2], [Fin 1, PInf]]) 0 0"
proof -
  let ?st = "sample_state [[Fin 0, Fin 2], [Fin 1, PInf]] [[True, False], [False, False]]
            [(Fin 1, 1, 0), (Fin 2, 0, 1), (PInf, 0, 0), (PInf, 0, 0)] 2"
  have sh: "nrows (st_T ?st) = nrows (frozen ?st)" "ncols (st_T ?st) = ncols (frozen ?st)"
    by (simp_all add: sample_state_def)
  from arrival_times_only_decrease[OF sample_after_iter2 sh] sample_after_iter2
  show ?thesis by (simp add: elems_table2)
qed

text \<open>
  C6. With the source inside the grid the solver returns a field, whatever the slowness
  values and the spacing are: the loop ends with the band empty, the time of the source
  cell is 0, and every other cell none of whose neighbours was ever frozen (the wavefront
  never reached it) holds \<open>+\<infinity>\<close>.
\<close>

theorem source_zero_unreached_infinite:
  assumes "0 \<le> sy" and "sy < int (nrows slowness)" and "0 \<le> sx" and "sx < int (ncols slowness)"
  shows "\<exists>stf. bindE (fmm_init slowness sy sx) (fmm_loop slowness dx) = Inr stf \<and>
           hs stf = 0 \<and>
           solve_eikonal slowness (sy, sx) dx = Inr (st_T stf) \<and>
           elems (st_T stf) (nat sy) (nat sx) = Fin 0 \<and>
           (\<forall>r c. (r, c) \<noteq> (nat sy, nat sx) \<and> \<not> near_frozen (frozen stf) r c \<longrightarrow>
                  elems (st_T stf) r c = PInf)"
proof -
  from fmm_init_in_range[OF assms] obtain st0 where i: "fmm_init slowness sy sx = Inr st0"
    and inv0: "wf_state slowness st0 \<and> src_inv sy sx st0 \<and> reach_inv sy sx st0" by blast
  have step: "\<exists>s'. fmm_iter slowness dx s = Inr s' \<and>
                (wf_state slowness s' \<and> src_inv sy sx s' \<and> reach_inv sy sx s')"
    if "wf_state slowness s \<and> src_inv sy sx s \<and> reach_inv sy sx s" and "0 < hs s" for s
  proof -
    from that have wf: "wf_state slowness s" by simp
    from fmm_iter_returns[OF wf that(2), of dx] obtain s' where it: "fmm_iter slowness dx s = Inr s'"
      and wf': "wf_state slowness s'" by blast
    from fmm_iter_src[OF it wf that(2) _ assms(1,3)] that(1) have "src_inv sy sx s'" by simp
    moreover from fmm_iter_reach[OF it wf that(2)] that(1) have "reach_inv sy sx s'" by simp
    ultimately show ?thesis using it wf' by blast
  qed
  from fmm_loop_invariant[of "\<lambda>s. wf_state slowness s \<and> src_inv sy sx s \<and> reach_inv sy sx s",
        OF step inv0]
  obtain stf where l: "fmm_loop slowness dx st0 = Inr stf" and e: "hs stf = 0"
    and s: "src_inv sy sx stf" and r: "reach_inv sy sx stf" by blast
  have "solve_eikonal slowness (sy, sx) dx = Inr (st_T stf)"
    by (simp add: solve_eikonal_def fmm_core_def i l)
  moreover from r have "\<forall>r c. (r, c) \<noteq> (nat sy, nat sx) \<and> \<not> near_frozen (frozen stf) r c \<longrightarrow>
                  elems (st_T stf) r c = PInf"
    unfolding reach_inv_def by blast
  ultimately show ?thesis using i l e s by (simp add: src_inv_def)
qed


theorem source_zero_unreached_infinite_witness:
  "(0::int) \<le> 0 \<and> (0::int) < int (nrows sample_field) \<and> (0::int) < int (ncols sample_field) \<and>
   (\<exists>stf :: fmm_state. solve_eikonal sample_field (0, 0) (Fin 1) = Inr (st_T stf) \<and>
          hs stf = 0 \<and> elems (st_T stf) 0 0 = Fin 0)"
proof -
  have h: "(0::int) \<le> 0" "(0::int) < int (nrows sample_field)" "(0::int) < int (ncols sample_field)"
    by (simp_all add: sample_field_def)
  have "\<exists>stf. bindE (fmm_init sample_field 0 0) (fmm_loop sample_field (Fin 1)) = Inr stf \<and>
           hs stf = 0 \<and>
           solve_eikonal sample_field (0, 0) (Fin 1) = Inr (st_T stf) \<and>
           elems (st_T stf) (nat 0) (nat 0) = Fin 0 \<and>
           (\<forall>r c. (r, c) \<noteq> (nat 0, nat 0) \<and> \<not> near_frozen (frozen stf) r c \<longrightarrow>
                  elems (st_T stf) r c = PInf)"
    by (rule source_zero_unreached_infinite[OF h(1) h(2) h(1) h(3)])
  then obtain stf :: fmm_state where a: "solve_eikonal sample_field (0, 0) (Fin 1) = Inr (st_T stf)"
    and b: "hs stf = 0" and c: "elems (st_T stf) (nat 0) (nat 0) = Fin 0"
    by (elim exE conjE) (rule that, assumption+)
  from c have c': "elems (st_T stf) 0 0 = Fin 0" by simp
  from a b c' have "\<exists>stf :: fmm_state. solve_eikonal sample_field (0, 0) (Fin 1) = Inr (st_T stf) \<and>
          hs stf = 0 \<and> elems (st_T stf) 0 0 = Fin 0"
    by (intro exI[of _ stf] conjI)
  with h show ?thesis by (intro conjI)
qed

text \<open>
  C7, as the code has it. The solver has no check of the source and no error for it. A
  source whose row is an index of the row axis in the sense of the array access (from
  minus the number of rows up to the number of rows less one) and whose column is one of
  the column axis is accepted, also when it is negative and so outside the grid: a
  negative coordinate counts from the end of its axis. The call returns a field of the
  shape of the slowness field, and the cell that the source addresses holds the time 0.
\<close>

theorem solve_eikonal_source_unchecked:
  assumes "- int (nrows g) \<le> sy" and "sy < int (nrows g)"
    and "- int (ncols g) \<le> sx" and "sx < int (ncols g)"
  shows "\<exists>T. solve_eikonal g (sy, sx) dx = Inr T \<and>
           nrows T = nrows g \<and> ncols T = ncols g \<and>
           elems T (nat (wraparound (nrows g) sy)) (nat (wraparound (ncols g) sx)) = Fin 0"
  by (rule solve_eikonal_cell[OF cell_of_wrapped[OF assms]])

theorem solve_eikonal_source_unchecked_witness:
  "- int (nrows unit_field) \<le> - 1 \<and> - 1 < int (nrows unit_field) \<and>
   - int (ncols unit_field) \<le> - 1 \<and> - 1 < int (ncols unit_field) \<and>
   (\<exists>T. solve_eikonal unit_field (- 1, - 1) (Fin 1) = Inr T \<and>
        nrows T = 2 \<and> ncols T = 2 \<and> elems T 1 1 = Fin 0)"
  using solve_eikonal_source_unchecked[of unit_field "- 1" "- 1" "Fin 1"]
  by (simp add: unit_field_def full2_def wraparound_def)

text \<open>
  The claim as written fails for the source \<open>(-1, -1)\<close> on a 2 by 2 field: it lies outside
  the grid, and the call returns a field, with time 0 at the cell \<open>(1, 1)\<close>.
\<close>

theorem solve_eikonal_negative_source_counterexample:
  "\<not> (0 \<le> (- 1 :: int) \<and> - 1 < int (nrows unit_field)) \<and>
   \<not> isl (solve_eikonal unit_field (- 1, - 1) (Fin 1)) \<and>
   elems (projr (solve_eikonal unit_field (- 1, - 1) (Fin 1))) 1 1 = Fin 0"
proof -
  let ?st1 = "\<lparr>st_T = \<lparr>nrows = 2, ncols = 2, elems = (\<lambda>r c. PInf)(1 := (\<lambda>c. PInf)(1 := Fin 0)),
             beyond = unspecified\<rparr>,
      frozen = \<lparr>nrows = 2, ncols = 2, elems = (\<lambda>r c. False)(1 := (\<lambda>c. False)(1 := True)),
                beyond = unspecified\<rparr>,
      heap_t = [Fin 0, PInf, PInf, PInf], heap_y = [- 1, 0, 0, 0], heap_x = [- 1, 0, 0, 0], hs = 0\<rparr>"
  have "fmm_loop unit_field (Fin 1) ?st1 = Inr ?st1"
    by (rule fmm_loop_done) simp
  then have "bindE (fmm_init unit_field (- 1) (- 1)) (fmm_loop unit_field (Fin 1)) = Inr ?st1"
    unfolding fmm_init_wrapped bindE_Inr
    by (subst fmm_loop_step[OF _ fmm_iter_wrapped]) simp_all
  then have "solve_eikonal unit_field (- 1, - 1) (Fin 1) = Inr (st_T ?st1)"
    by (simp add: solve_eikonal_def fmm_core_eq)
  then show ?thesis by simp
qed






end
